theory Spec2Isabelle
  imports Main
begin

section \<open>Strings and characters\<close>

text \<open>
  A JavaScript string is a sequence of UTF-16 code units. The model uses \<open>string\<close>
  (a \<open>char list\<close>), each \<open>char\<close> read as the code unit with the same number (0 to 255).
  Every character that the patterns of \<open>cleanHtmlContent\<close> name is ASCII.
\<close>

definition code :: "char \<Rightarrow> nat" where
  "code c = of_char c"

text \<open>
  The class \<open>\s\<close> of ECMAScript (white space and line terminators), on the code units
  0 to 255: TAB, LF, VT, FF, CR, SPACE and NO-BREAK SPACE.
\<close>

definition white_space :: string where
  "white_space = [CHR 0x09, CHR 0x0A, CHR 0x0B, CHR 0x0C, CHR 0x0D, CHR 0x20, CHR 0xA0]"

definition is_space :: "char \<Rightarrow> bool" where
  "is_space c = (c \<in> set white_space)"

text \<open>The line terminators that \<open>.\<close> does not match (no \<open>s\<close> flag): LF and CR.\<close>

definition line_terminators :: string where
  "line_terminators = [CHR 0x0A, CHR 0x0D]"

definition is_line_terminator :: "char \<Rightarrow> bool" where
  "is_line_terminator c = (c \<in> set line_terminators)"

text \<open>
  The letters with two cases among the code units 0 to 255, lower case and upper case
  in the same order: a-z and the Latin-1 letters 224-254 (not 247), each 32 above its
  upper-case form. The upper-case forms of 181 and 255 lie above 255 and are shared by
  no other code unit of the model, and 223 has none of one code unit: the three are
  left out, as \<open>Canonicalize\<close> does not relate them to another code unit below 256.
\<close>

definition lower_case :: string where
  "lower_case = ''abcdefghijklmnopqrstuvwxyz'' @
     [CHR 0xE0, CHR 0xE1, CHR 0xE2, CHR 0xE3, CHR 0xE4, CHR 0xE5, CHR 0xE6, CHR 0xE7, CHR
      0xE8, CHR 0xE9, CHR 0xEA, CHR 0xEB, CHR 0xEC, CHR 0xED, CHR 0xEE, CHR 0xEF, CHR 0xF0,
      CHR 0xF1, CHR 0xF2, CHR 0xF3, CHR 0xF4, CHR 0xF5, CHR 0xF6, CHR 0xF8, CHR 0xF9, CHR
      0xFA, CHR 0xFB, CHR 0xFC, CHR 0xFD, CHR 0xFE]"

definition upper_case :: string where
  "upper_case = ''ABCDEFGHIJKLMNOPQRSTUVWXYZ'' @
     [CHR 0xC0, CHR 0xC1, CHR 0xC2, CHR 0xC3, CHR 0xC4, CHR 0xC5, CHR 0xC6, CHR 0xC7, CHR
      0xC8, CHR 0xC9, CHR 0xCA, CHR 0xCB, CHR 0xCC, CHR 0xCD, CHR 0xCE, CHR 0xCF, CHR 0xD0,
      CHR 0xD1, CHR 0xD2, CHR 0xD3, CHR 0xD4, CHR 0xD5, CHR 0xD6, CHR 0xD8, CHR 0xD9, CHR
      0xDA, CHR 0xDB, CHR 0xDC, CHR 0xDD, CHR 0xDE]"

definition to_upper :: "char \<Rightarrow> char" where
  "to_upper c = (case map_of (zip lower_case upper_case) c of Some u \<Rightarrow> u | None \<Rightarrow> c)"

definition to_lower :: "char \<Rightarrow> char" where
  "to_lower c = (case map_of (zip upper_case lower_case) c of Some l \<Rightarrow> l | None \<Rightarrow> c)"

text \<open>
  \<open>Canonicalize\<close> of the ECMAScript pattern semantics (no \<open>u\<close> flag): under the \<open>i\<close>
  flag a code unit is compared by its upper-case form.
\<close>

definition canonicalize :: "bool \<Rightarrow> char \<Rightarrow> char" where
  "canonicalize ic c = (if ic then to_upper c else c)"

section \<open>Regular expressions of the source\<close>

text \<open>
  The patterns of \<open>cleanHtmlContent\<close> are sequences of: one character or class, a
  quantified character or class (\<open>*\<close>, \<open>+\<close>, \<open>*?\<close>), the parentheses of a capture
  group, and a back-reference. A pattern is the list of these in the order written.
\<close>

datatype cclass =
    Lit char            \<comment> \<open>a character\<close>
  | Range char char     \<comment> \<open>\<open>a-z\<close> inside a class\<close>
  | WhiteSpace          \<comment> \<open>\<open>\s\<close>\<close>
  | NonWhiteSpace       \<comment> \<open>\<open>\S\<close>\<close>

datatype atom =
    Chr char                \<comment> \<open>a literal character of the pattern\<close>
  | Cls "cclass list"       \<comment> \<open>\<open>[...]\<close>, and \<open>\s\<close> as \<open>Cls [WhiteSpace]\<close>\<close>
  | NotCls "cclass list"    \<comment> \<open>\<open>[^...]\<close>\<close>
  | Dot                     \<comment> \<open>\<open>.\<close>\<close>

datatype node =
    One atom          \<comment> \<open>the atom, once\<close>
  | Star atom         \<comment> \<open>\<open>atom*\<close>, greedy\<close>
  | Plus atom         \<comment> \<open>\<open>atom+\<close>, greedy\<close>
  | LazyStar atom     \<comment> \<open>\<open>atom*?\<close>\<close>
  | Open nat          \<comment> \<open>\<open>(\<close> of capture group n\<close>
  | Close nat         \<comment> \<open>\<open>)\<close> of capture group n\<close>
  | Backref nat       \<comment> \<open>\<open>\n\<close>\<close>

record regexp =
  nodes :: "node list"
  ignoreCase :: bool

type_synonym captures = "nat \<rightharpoonup> string"

definition between :: "char \<Rightarrow> char \<Rightarrow> char \<Rightarrow> bool" where
  "between lo hi c = (code lo \<le> code c \<and> code c \<le> code hi)"

text \<open>
  A class member \<open>k\<close> has the character \<open>c\<close> when some character \<open>a\<close> of \<open>k\<close> has
  \<open>Canonicalize a = Canonicalize c\<close>. Under the \<open>i\<close> flag the characters with the
  canonical form of \<open>c\<close> are \<open>c\<close>, its upper-case and its lower-case form.
\<close>

fun cclass_has :: "bool \<Rightarrow> cclass \<Rightarrow> char \<Rightarrow> bool" where
  "cclass_has ic (Lit a) c = (canonicalize ic a = canonicalize ic c)"
| "cclass_has ic (Range lo hi) c =
     (if between lo hi c then True
      else if ic then (if between lo hi (to_upper c) then True else between lo hi (to_lower c))
      else False)"
| "cclass_has ic WhiteSpace c = is_space c"
| "cclass_has ic NonWhiteSpace c = (\<not> is_space c)"

fun atom_matches :: "bool \<Rightarrow> atom \<Rightarrow> char \<Rightarrow> bool" where
  "atom_matches ic (Chr a) c = (canonicalize ic a = canonicalize ic c)"
| "atom_matches ic (Cls cs) c = list_ex (\<lambda>k. cclass_has ic k c) cs"
| "atom_matches ic (NotCls cs) c = (\<not> list_ex (\<lambda>k. cclass_has ic k c) cs)"
| "atom_matches ic Dot c = (\<not> is_line_terminator c)"

text \<open>
  A back-reference matches the captured string again, character by character up to
  \<open>Canonicalize\<close>; the result is the input after it.
\<close>

fun match_backref :: "bool \<Rightarrow> string \<Rightarrow> string \<Rightarrow> string option" where
  "match_backref ic [] inp = Some inp"
| "match_backref ic (a # w) [] = None"
| "match_backref ic (a # w) (c # inp) =
     (if canonicalize ic a = canonicalize ic c then match_backref ic w inp else None)"

text \<open>
  The backtracking matcher, anchored at the start of the input: \<open>m ic r inp opens caps\<close>
  is the first way, in the priority order of ECMAScript, in which the nodes \<open>r\<close> match a
  prefix of \<open>inp\<close>; it returns the input after the match and the captures. A greedy
  quantifier tries one more character before it tries the rest of the pattern, a lazy
  one the other way round. \<open>opens\<close> holds the input at the \<open>(\<close> of a group.
\<close>

fun m :: "bool \<Rightarrow> node list \<Rightarrow> string \<Rightarrow> captures \<Rightarrow> captures \<Rightarrow> (string \<times> captures) option" where
  "m ic [] inp opens caps = Some (inp, caps)"
| "m ic (One a # r) inp opens caps =
     (case inp of
        [] \<Rightarrow> None
      | c # inp' \<Rightarrow> if atom_matches ic a c then m ic r inp' opens caps else None)"
| "m ic (Star a # r) inp opens caps =
     (case inp of
        [] \<Rightarrow> m ic r inp opens caps
      | c # inp' \<Rightarrow>
          if atom_matches ic a c
          then (case m ic (Star a # r) inp' opens caps of
                  Some res \<Rightarrow> Some res
                | None \<Rightarrow> m ic r inp opens caps)
          else m ic r inp opens caps)"
| "m ic (Plus a # r) inp opens caps =
     (case inp of
        [] \<Rightarrow> None
      | c # inp' \<Rightarrow> if atom_matches ic a c then m ic (Star a # r) inp' opens caps else None)"
| "m ic (LazyStar a # r) inp opens caps =
     (case m ic r inp opens caps of
        Some res \<Rightarrow> Some res
      | None \<Rightarrow>
          (case inp of
             [] \<Rightarrow> None
           | c # inp' \<Rightarrow>
               if atom_matches ic a c then m ic (LazyStar a # r) inp' opens caps else None))"
| "m ic (Open n # r) inp opens caps = m ic r inp (opens(n \<mapsto> inp)) caps"
| "m ic (Close n # r) inp opens caps =
     (case opens n of
        None \<Rightarrow> m ic r inp opens caps
      | Some start \<Rightarrow> m ic r inp opens (caps(n \<mapsto> take (length start - length inp) start)))"
| "m ic (Backref n # r) inp opens caps =
     (case caps n of
        None \<Rightarrow> m ic r inp opens caps
      | Some w \<Rightarrow>
          (case match_backref ic w inp of
             None \<Rightarrow> None
           | Some inp' \<Rightarrow> m ic r inp' opens caps))"

declare m.simps [simp del]

definition match_at :: "regexp \<Rightarrow> string \<Rightarrow> (string \<times> captures) option" where
  "match_at rx inp = m (ignoreCase rx) (nodes rx) inp Map.empty Map.empty"

text \<open>
  The replacement strings of the source are \<open>""\<close>, \<open>"\n"\<close>, \<open>"$1"\<close> and
  \<open>"<td>$1</td>"\<close>: literal text and \<open>$n\<close>, the n-th capture (empty when the group took
  no part in the match).
\<close>

datatype rpart = Txt string | Grp nat

fun expand :: "rpart list \<Rightarrow> captures \<Rightarrow> string" where
  "expand [] caps = []"
| "expand (Txt t # ps) caps = t @ expand ps caps"
| "expand (Grp n # ps) caps = (case caps n of None \<Rightarrow> [] | Some w \<Rightarrow> w) @ expand ps caps"

text \<open>
  \<open>String.prototype.replace\<close> with a pattern that has the \<open>g\<close> flag: the matches are
  looked for from left to right, each search starting where the last match ended; after
  an empty match the search moves one character on. The text between matches is copied.
\<close>

function replace_all :: "regexp \<Rightarrow> rpart list \<Rightarrow> string \<Rightarrow> string" where
  "replace_all rx rep s =
     (case match_at rx s of
        None \<Rightarrow> (case s of [] \<Rightarrow> [] | c # cs \<Rightarrow> c # replace_all rx rep cs)
      | Some (rest, caps) \<Rightarrow>
          if length rest < length s then expand rep caps @ replace_all rx rep rest
          else (case s of
                  [] \<Rightarrow> expand rep caps
                | c # cs \<Rightarrow> expand rep caps @ c # replace_all rx rep cs))"
  by pat_completeness auto
termination
  by (relation "measure (\<lambda>(rx, rep, s). length s)") auto

declare replace_all.simps [simp del]

section \<open>\<open>ZendeskClient.cleanHtmlContent\<close>\<close>

definition dquote :: char where "dquote = CHR 0x22"
definition squote :: char where "squote = CHR 0x27"

text \<open>A run of literal characters of a pattern.\<close>

definition lits :: "string \<Rightarrow> node list" where
  "lits s = map (\<lambda>c. One (Chr c)) s"

text \<open>\<open>/<([a-z][a-z0-9]*)[^>]*>\s*<\/\1>/gi\<close>\<close>

definition emptyTagPattern :: regexp where
  "emptyTagPattern = \<lparr>
     nodes = [One (Chr CHR ''<''),
              Open 1, One (Cls [Range CHR ''a'' CHR ''z'']),
                      Star (Cls [Range CHR ''a'' CHR ''z'', Range CHR ''0'' CHR ''9'']), Close 1,
              Star (NotCls [Lit CHR ''>'']), One (Chr CHR ''>''),
              Star (Cls [WhiteSpace]),
              One (Chr CHR ''<''), One (Chr CHR ''/''), Backref 1, One (Chr CHR ''>'')],
     ignoreCase = True \<rparr>"

text \<open>
  \<open>/\s+NAME=["']([^"']*)["']/gi\<close>, the shape of the five attribute patterns, which
  differ in the name only.
\<close>

definition attributePattern :: "string \<Rightarrow> regexp" where
  "attributePattern name = \<lparr>
     nodes = Plus (Cls [WhiteSpace]) # lits name @ [One (Chr CHR ''=''),
              One (Cls [Lit dquote, Lit squote]),
              Open 1, Star (NotCls [Lit dquote, Lit squote]), Close 1,
              One (Cls [Lit dquote, Lit squote])],
     ignoreCase = True \<rparr>"

definition styleAttributePattern :: regexp where
  "styleAttributePattern = attributePattern ''style''"

definition idAttributePattern :: regexp where
  "idAttributePattern = attributePattern ''id''"

definition classAttributePattern :: regexp where
  "classAttributePattern = attributePattern ''class''"

definition targetAttributePattern :: regexp where
  "targetAttributePattern = attributePattern ''target''"

definition borderAttributePattern :: regexp where
  "borderAttributePattern = attributePattern ''border''"

text \<open>
  \<open>/<NAME[^>]*>([\s\S]*?)<\/NAME>/gi\<close>, the shape of \<open>spanTagPattern\<close> and
  \<open>fontTagPattern\<close>.
\<close>

definition wrapperTagPattern :: "string \<Rightarrow> regexp" where
  "wrapperTagPattern name = \<lparr>
     nodes = One (Chr CHR ''<'') # lits name @ [Star (NotCls [Lit CHR ''>'']), One (Chr CHR ''>''),
              Open 1, LazyStar (Cls [WhiteSpace, NonWhiteSpace]), Close 1,
              One (Chr CHR ''<''), One (Chr CHR ''/'')] @ lits name @ [One (Chr CHR ''>'')],
     ignoreCase = True \<rparr>"

definition spanTagPattern :: regexp where
  "spanTagPattern = wrapperTagPattern ''span''"

definition fontTagPattern :: regexp where
  "fontTagPattern = wrapperTagPattern ''font''"

text \<open>\<open>/\n\s*\n/g\<close> (no \<open>i\<close> flag)\<close>

definition multipleLineBreaksPattern :: regexp where
  "multipleLineBreaksPattern = \<lparr>
     nodes = [One (Chr CHR 0x0A), Star (Cls [WhiteSpace]), One (Chr CHR 0x0A)],
     ignoreCase = False \<rparr>"

text \<open>\<open>/<td>\s*<p>(.*?)<\/p>\s*<\/td>/gi\<close>, the pattern written in place in the last step\<close>

definition tableCellPattern :: regexp where
  "tableCellPattern = \<lparr>
     nodes = lits ''<td>'' @ [Star (Cls [WhiteSpace])] @ lits ''<p>''
             @ [Open 1, LazyStar Dot, Close 1] @ lits ''</p>''
             @ [Star (Cls [WhiteSpace])] @ lits ''</td>'',
     ignoreCase = True \<rparr>"

text \<open>
  The body of \<open>cleanHtmlContent\<close> after its guard, on a non-empty string: the ten
  replacements in the order of the source.
\<close>

definition cleanHtml :: "string \<Rightarrow> string" where
  "cleanHtml html =
     (let cleanedHtml = replace_all emptyTagPattern [] html;
          cleanedHtml = replace_all styleAttributePattern [] cleanedHtml;
          cleanedHtml = replace_all idAttributePattern [] cleanedHtml;
          cleanedHtml = replace_all classAttributePattern [] cleanedHtml;
          cleanedHtml = replace_all targetAttributePattern [] cleanedHtml;
          cleanedHtml = replace_all borderAttributePattern [] cleanedHtml;
          cleanedHtml = replace_all spanTagPattern [Grp 1] cleanedHtml;
          cleanedHtml = replace_all fontTagPattern [Grp 1] cleanedHtml;
          cleanedHtml = replace_all multipleLineBreaksPattern [Txt [CHR 0x0A]] cleanedHtml;
          cleanedHtml = replace_all tableCellPattern [Txt ''<td>'', Grp 1, Txt ''</td>''] cleanedHtml
      in cleanedHtml)"

text \<open>
  \<open>normalize_html\<close> on strings: \<open>if (!html) return html\<close> returns the empty string as it
  is.
\<close>

definition normalize_html :: "string \<Rightarrow> string" where
  "normalize_html html = (if html = [] then html else cleanHtml html)"

section \<open>Where a pattern matches\<close>

text \<open>\<open>has_match rx s\<close>: the pattern matches somewhere in \<open>s\<close> (\<open>rx.test(s)\<close>).\<close>

fun has_match :: "regexp \<Rightarrow> string \<Rightarrow> bool" where
  "has_match rx [] = (match_at rx [] \<noteq> None)"
| "has_match rx (c # cs) = (if match_at rx (c # cs) \<noteq> None then True else has_match rx cs)"

text \<open>The least number of characters that a match of the nodes takes.\<close>

fun min_len :: "node list \<Rightarrow> nat" where
  "min_len [] = 0"
| "min_len (One a # r) = Suc (min_len r)"
| "min_len (Plus a # r) = Suc (min_len r)"
| "min_len (n # r) = min_len r"

text \<open>A character with one case only: it is no letter of \<open>lower_case\<close> or \<open>upper_case\<close>.\<close>

definition caseless :: "char \<Rightarrow> bool" where
  "caseless a = (a \<notin> set lower_case \<and> a \<notin> set upper_case)"

text \<open>
  A string is free of \<open>style\<close>, \<open>id\<close>, \<open>class\<close>, \<open>target\<close> and \<open>border\<close> attributes when
  none of the five attribute patterns matches in it; it is free of \<open>span\<close> and \<open>font\<close>
  wrappers when neither wrapper pattern matches in it.
\<close>

definition attribute_free :: "string \<Rightarrow> bool" where
  "attribute_free x =
     (\<not> has_match styleAttributePattern x \<and> \<not> has_match idAttributePattern x
      \<and> \<not> has_match classAttributePattern x \<and> \<not> has_match targetAttributePattern x
      \<and> \<not> has_match borderAttributePattern x)"


text \<open>The attribute steps and the line-break step, which are all that acts on a string with no \<open><\<close>.\<close>

definition text_steps :: "string \<Rightarrow> string" where
  "text_steps x =
     replace_all multipleLineBreaksPattern [Txt [CHR 0x0A]]
       (replace_all borderAttributePattern []
         (replace_all targetAttributePattern []
           (replace_all classAttributePattern []
             (replace_all idAttributePattern []
               (replace_all styleAttributePattern [] x)))))"




section \<open>The shapes that the patterns look for\<close>

text \<open>
  The substrings that the normalizer is meant to find, written on the strings alone,
  with no pattern: below, each is proved to be where the pattern of the source matches.

  \<open>attribute_shaped name x\<close>: somewhere in \<open>x\<close> there is white space, then \<open>name\<close> in
  any letter case, then \<open>=\<close>, then a quote (\<open>"\<close> or \<open>'\<close>), a value with no quote in it, and
  a quote again.
\<close>

definition attribute_shaped :: "string \<Rightarrow> string \<Rightarrow> bool" where
  "attribute_shaped name x =
     (\<exists>u w n q1 v q2 t.
        x = u @ w @ n @ ''='' @ q1 # v @ q2 # t
        \<and> w \<noteq> [] \<and> list_all is_space w
        \<and> map to_upper n = map to_upper name
        \<and> (q1 = dquote \<or> q1 = squote) \<and> (q2 = dquote \<or> q2 = squote)
        \<and> dquote \<notin> set v \<and> squote \<notin> set v)"

text \<open>A run of blank lines: a line break, white space only, and a line break again.\<close>

definition blank_line_run :: "string \<Rightarrow> bool" where
  "blank_line_run x = (\<exists>u w t. x = u @ CHR 0x0A # w @ CHR 0x0A # t \<and> list_all is_space w)"



text \<open>
  A paragraph that fills a table cell: \<open><td>\<close>, white space, \<open><p>\<close>, a content with no
  line terminator, \<open></p>\<close>, white space, \<open></td>\<close>, the four tags in any letter case.
\<close>

definition cell_paragraph_shaped :: "string \<Rightarrow> bool" where
  "cell_paragraph_shaped x =
     (\<exists>u t1 w1 t2 X t3 w2 t4 t.
        x = u @ t1 @ w1 @ t2 @ X @ t3 @ w2 @ t4 @ t
        \<and> map to_upper t1 = map to_upper ''<td>''
        \<and> list_all is_space w1
        \<and> map to_upper t2 = map to_upper ''<p>''
        \<and> \<not> list_ex is_line_terminator X
        \<and> map to_upper t3 = map to_upper ''</p>''
        \<and> list_all is_space w2
        \<and> map to_upper t4 = map to_upper ''</td>'')"


text \<open>
  \<open>starts_with_ci p s\<close>: the string \<open>s\<close> begins with \<open>p\<close>, in any letter case;
  \<open>contains_ci p s\<close>: \<open>p\<close> occurs in \<open>s\<close>, in any letter case.
\<close>

fun starts_with_ci :: "string \<Rightarrow> string \<Rightarrow> bool" where
  "starts_with_ci [] s = True"
| "starts_with_ci (a # p) [] = False"
| "starts_with_ci (a # p) (c # s) = (if to_upper c = to_upper a then starts_with_ci p s else False)"

fun contains_ci :: "string \<Rightarrow> string \<Rightarrow> bool" where
  "contains_ci p [] = starts_with_ci p []"
| "contains_ci p (c # s) = (if starts_with_ci p (c # s) then True else contains_ci p s)"

section \<open>JavaScript values\<close>

text \<open>
  The values that \<open>JSON.parse\<close> gives, and \<open>undefined\<close>. An object is the list of its
  own properties in their order. Numbers are the integers among the doubles, and \<open>NaN\<close>
  (which \<open>parseInt\<close> gives).
\<close>

datatype jsval =
    Undefined
  | Null
  | Bool bool
  | Num int
  | NaN
  | Str string
  | Arr "jsval list"
  | Obj "(string \<times> jsval) list"

datatype error =
    RequestFailure string   \<comment> \<open>what \<open>axios.get\<close> throws\<close>
  | TypeError               \<comment> \<open>a property read on \<open>undefined\<close> or \<open>null\<close>, a call of a missing method\<close>

fun truthy :: "jsval \<Rightarrow> bool" where
  "truthy Undefined = False"
| "truthy Null = False"
| "truthy (Bool b) = b"
| "truthy (Num n) = (n \<noteq> 0)"
| "truthy NaN = False"
| "truthy (Str s) = (s \<noteq> [])"
| "truthy (Arr xs) = True"
| "truthy (Obj kvs) = True"

text \<open>
  \<open>v.k\<close> for one of the property names that the client reads (none of them is a
  property of a string, number, boolean or array): the own property of an object,
  \<open>undefined\<close> when there is none. The read throws on \<open>undefined\<close> and \<open>null\<close>, see
  \<open>nullish\<close>.
\<close>

fun field :: "jsval \<Rightarrow> string \<Rightarrow> jsval" where
  "field (Obj kvs) k = (case map_of kvs k of None \<Rightarrow> Undefined | Some v \<Rightarrow> v)"
| "field v k = Undefined"

fun nullish :: "jsval \<Rightarrow> bool" where
  "nullish Undefined = True"
| "nullish Null = True"
| "nullish v = False"

text \<open>The names of the own properties of a value: its field set.\<close>

fun keys :: "jsval \<Rightarrow> string set" where
  "keys (Obj kvs) = set (map fst kvs)"
| "keys v = {}"

text \<open>\<open>obj.k = v\<close> on an object: the property is replaced in place or added at the end.\<close>

fun assign :: "(string \<times> jsval) list \<Rightarrow> string \<Rightarrow> jsval \<Rightarrow> (string \<times> jsval) list" where
  "assign [] k v = [(k, v)]"
| "assign ((k', v') # kvs) k v = (if k' = k then (k, v) # kvs else (k', v') # assign kvs k v)"

section \<open>\<open>ZendeskClient\<close>\<close>

record ZendeskConfig =
  subdomain :: string
  email :: string
  apiToken :: string
  defaultLocale :: "string option"

record ZendeskClient =
  baseUrl :: string
  config :: ZendeskConfig
  clientLocale :: string   \<comment> \<open>the private field \<open>defaultLocale\<close> of the class\<close>

text \<open>The constructor; \<open>config.defaultLocale || "en"\<close> takes \<open>"en"\<close> for the empty string too.\<close>

definition new_ZendeskClient :: "ZendeskConfig \<Rightarrow> ZendeskClient" where
  "new_ZendeskClient cfg = \<lparr>
     baseUrl = ''https://'' @ subdomain cfg @ ''.zendesk.com/api/v2/help_center'',
     config = cfg,
     clientLocale = (case defaultLocale cfg of
                       None \<Rightarrow> ''en''
                     | Some l \<Rightarrow> if l = [] then ''en'' else l) \<rparr>"

text \<open>What \<open>makeRequest\<close> hands to \<open>axios.get\<close>.\<close>

record request =
  url :: string
  params :: "(string \<times> jsval) list"
  username :: string
  password :: string

text \<open>
  The transport (\<open>axios.get\<close> and the network) is outside the client: from its state
  and a request it throws an error or gives the data of the response, and moves to a new
  state. The state of a run also counts the calls of the transport and keeps what
  \<open>console.error\<close> printed.
\<close>

type_synonym 'w transport = "'w \<Rightarrow> request \<Rightarrow> (error + jsval) \<times> 'w"

record 'w run =
  world :: 'w
  calls :: nat
  console :: "error list"

definition axios_config :: "ZendeskClient \<Rightarrow> string \<Rightarrow> (string \<times> jsval) list \<Rightarrow> request" where
  "axios_config client u ps = \<lparr>
     url = u, params = ps,
     username = email (config client) @ ''/token'',
     password = apiToken (config client) \<rparr>"

definition makeRequest ::
  "'w transport \<Rightarrow> ZendeskClient \<Rightarrow> string \<Rightarrow> (string \<times> jsval) list \<Rightarrow> 'w run
   \<Rightarrow> (error + jsval) \<times> 'w run" where
  "makeRequest get client u ps st =
     (let (response, w) = get (world st) (axios_config client u ps);
          st = st\<lparr> world := w, calls := calls st + 1 \<rparr>
      in case response of
           Inl err \<Rightarrow> (Inl err, st\<lparr> console := console st @ [err] \<rparr>)
         | Inr data \<Rightarrow> (Inr data, st))"

text \<open>\<open>cleanHtmlContent\<close>: a falsy value is returned as it is; \<open>replace\<close> is a method of strings only.\<close>

definition cleanHtmlContent :: "jsval \<Rightarrow> error + jsval" where
  "cleanHtmlContent html =
     (if \<not> truthy html then Inr html
      else case html of Str s \<Rightarrow> Inr (Str (cleanHtml s)) | _ \<Rightarrow> Inl TypeError)"

text \<open>\<open>name = dflt\<close> in a destructuring pattern: the default stands in for \<open>undefined\<close> only.\<close>

definition or_default :: "jsval \<Rightarrow> jsval \<Rightarrow> jsval" where
  "or_default v dflt = (if v = Undefined then dflt else v)"

text \<open>The function mapped over \<open>data.results\<close> in \<open>searchArticles\<close>.\<close>

definition searchFilter :: "jsval \<Rightarrow> error + jsval" where
  "searchFilter article =
     (if nullish article then Inl TypeError
      else Inr (Obj [(''id'', field article ''id''),
                     (''url'', field article ''url''),
                     (''html_url'', field article ''html_url''),
                     (''author_id'', field article ''author_id''),
                     (''created_at'', field article ''created_at''),
                     (''updated_at'', field article ''updated_at''),
                     (''title'', field article ''title''),
                     (''label_names'', field article ''label_names'')]))"

text \<open>\<open>Array.prototype.map\<close> with a function that may throw: the first error ends it.\<close>

fun map_throwing :: "('a \<Rightarrow> error + 'b) \<Rightarrow> 'a list \<Rightarrow> error + 'b list" where
  "map_throwing f [] = Inr []"
| "map_throwing f (x # xs) =
     (case f x of
        Inl err \<Rightarrow> Inl err
      | Inr y \<Rightarrow> (case map_throwing f xs of Inl err \<Rightarrow> Inl err | Inr ys \<Rightarrow> Inr (y # ys)))"

text \<open>The request of \<open>searchArticles\<close>, from the object \<open>params\<close>.\<close>

definition searchRequest :: "ZendeskClient \<Rightarrow> jsval \<Rightarrow> string \<times> (string \<times> jsval) list" where
  "searchRequest client ps =
     (let query = field ps ''query'';
          locale = or_default (field ps ''locale'') (Str (clientLocale client));
          page = or_default (field ps ''page'') (Num 1);
          per_page = or_default (field ps ''per_page'') (Num 20);
          searchUrl = baseUrl client @ ''/articles/search.json''
      in (searchUrl, [(''query'', query), (''locale'', locale), (''page'', page),
                      (''per_page'', per_page)]))"

text \<open>
  The filter of \<open>searchArticles\<close> on the data of the response: \<open>data.results\<close> is read
  (a \<open>TypeError\<close> on \<open>undefined\<close> and \<open>null\<close>), and an array there is replaced by the array
  of the filtered articles.
\<close>

definition searchResults :: "jsval \<Rightarrow> error + jsval" where
  "searchResults data =
     (if nullish data then Inl TypeError
      else case (data, field data ''results'') of
             (Obj kvs, Arr results) \<Rightarrow>
               (case map_throwing searchFilter results of
                  Inl err \<Rightarrow> Inl err
                | Inr filtered \<Rightarrow> Inr (Obj (assign kvs ''results'' (Arr filtered))))
           | _ \<Rightarrow> Inr data)"

definition searchArticles ::
  "'w transport \<Rightarrow> ZendeskClient \<Rightarrow> jsval \<Rightarrow> 'w run \<Rightarrow> (error + jsval) \<times> 'w run" where
  "searchArticles get client ps st =
     (if nullish ps then (Inl TypeError, st)
      else let (searchUrl, qs) = searchRequest client ps
           in case makeRequest get client searchUrl qs st of
                (Inl err, st) \<Rightarrow> (Inl err, st)
              | (Inr data, st) \<Rightarrow> (searchResults data, st))"

text \<open>
  The decimal digits of a number, for \<open>${id}\<close> in a template literal. JavaScript
  writes a number from \<open>10^21\<close> on with an exponent; the model writes all the digits,
  so the two agree on the numbers below \<open>10^21\<close> only.
\<close>

fun show_nat :: "nat \<Rightarrow> string" where
  "show_nat n = (if n < 10 then [''0123456789'' ! n]
                 else show_nat (n div 10) @ [''0123456789'' ! (n mod 10)])"

declare show_nat.simps [simp del]

definition show_int :: "int \<Rightarrow> string" where
  "show_int i = (if i < 0 then CHR ''-'' # show_nat (nat (- i)) else show_nat (nat i))"

text \<open>\<open>ToString\<close> of a value in a template literal; an array joins its elements with commas.\<close>

fun join :: "string list \<Rightarrow> string" where
  "join [] = []"
| "join [x] = x"
| "join (x # y # ys) = x @ CHR '','' # join (y # ys)"

fun to_string :: "jsval \<Rightarrow> string" where
  "to_string Undefined = ''undefined''"
| "to_string Null = ''null''"
| "to_string (Bool b) = (if b then ''true'' else ''false'')"
| "to_string (Num n) = show_int n"
| "to_string NaN = ''NaN''"
| "to_string (Str s) = s"
| "to_string (Arr xs) = join (map (\<lambda>x. if nullish x then [] else to_string x) xs)"
| "to_string (Obj kvs) = ''[object Object]''"

text \<open>The request of \<open>getArticle\<close>.\<close>

definition articleRequest :: "ZendeskClient \<Rightarrow> jsval \<Rightarrow> string \<times> (string \<times> jsval) list" where
  "articleRequest client ps =
     (let id = field ps ''id'';
          locale = or_default (field ps ''locale'') (Str (clientLocale client));
          articleUrl = baseUrl client @ ''/articles/'' @ to_string id @ ''.json''
      in (articleUrl, [(''locale'', locale)]))"

text \<open>The object that \<open>getArticle\<close> builds from \<open>data.article\<close>, a truthy value.\<close>

definition articleFilter :: "jsval \<Rightarrow> error + jsval" where
  "articleFilter article =
     (case cleanHtmlContent (field article ''body'') of
        Inl err \<Rightarrow> Inl err
      | Inr body \<Rightarrow>
          Inr (Obj [(''id'', field article ''id''),
                    (''url'', field article ''url''),
                    (''html_url'', field article ''html_url''),
                    (''author_id'', field article ''author_id''),
                    (''created_at'', field article ''created_at''),
                    (''updated_at'', field article ''updated_at''),
                    (''title'', field article ''title''),
                    (''label_names'', field article ''label_names''),
                    (''body'', body)]))"

definition articleResult :: "jsval \<Rightarrow> error + jsval" where
  "articleResult data =
     (if nullish data then Inl TypeError
      else if truthy (field data ''article'')
      then (case articleFilter (field data ''article'') of
              Inl err \<Rightarrow> Inl err
            | Inr filteredArticle \<Rightarrow>
                (case data of
                   Obj kvs \<Rightarrow> Inr (Obj (assign kvs ''article'' filteredArticle))
                 | _ \<Rightarrow> Inr data))
      else Inr data)"

definition getArticle ::
  "'w transport \<Rightarrow> ZendeskClient \<Rightarrow> jsval \<Rightarrow> 'w run \<Rightarrow> (error + jsval) \<times> 'w run" where
  "getArticle get client ps st =
     (if nullish ps then (Inl TypeError, st)
      else let (articleUrl, qs) = articleRequest client ps
           in case makeRequest get client articleUrl qs st of
                (Inl err, st) \<Rightarrow> (Inl err, st)
              | (Inr data, st) \<Rightarrow> (articleResult data, st))"

section \<open>The commands of \<open>chatLoop\<close>\<close>

text \<open>\<open>input.split(" ")\<close>: the pieces between single spaces, at least one piece.\<close>

fun split_space :: "string \<Rightarrow> string list" where
  "split_space [] = [[]]"
| "split_space (c # cs) =
     (if c = CHR '' '' then [] # split_space cs
      else (case split_space cs of
              [] \<Rightarrow> [[c]]
            | p # ps \<Rightarrow> (c # p) # ps))"

text \<open>\<open>parts[i]\<close>: \<open>None\<close> is \<open>undefined\<close>, past the end of the array.\<close>

fun part :: "string list \<Rightarrow> nat \<Rightarrow> string option" where
  "part [] i = None"
| "part (p # ps) 0 = Some p"
| "part (p # ps) (Suc i) = part ps i"

text \<open>
  \<open>Number.parseInt\<close> with no radix; \<open>None\<close> is \<open>NaN\<close>. The argument \<open>undefined\<close> is
  read as the string \<open>"undefined"\<close>. Leading white space is dropped, then a sign, then
  \<open>0x\<close> or \<open>0X\<close> (which makes the radix 16); the digits that follow are the number, and
  there must be one. The model keeps the exact value of the digits; JavaScript rounds a
  value above \<open>2^53\<close> to the nearest double, so the two agree up to \<open>2^53\<close> only.
\<close>

definition digit_value :: "char \<Rightarrow> nat option" where
  "digit_value c =
     (case map_of (zip ''0123456789abcdef'' [0 ..< 16]) c of
        Some d \<Rightarrow> Some d
      | None \<Rightarrow> map_of (zip ''ABCDEF'' [10 ..< 16]) c)"

definition is_digit :: "nat \<Rightarrow> char \<Rightarrow> bool" where
  "is_digit radix c = (case digit_value c of None \<Rightarrow> False | Some d \<Rightarrow> d < radix)"

definition digits_value :: "nat \<Rightarrow> string \<Rightarrow> int" where
  "digits_value radix ds =
     foldl (\<lambda>acc c. acc * int radix + (case digit_value c of None \<Rightarrow> 0 | Some d \<Rightarrow> int d)) 0 ds"

definition parse_digits :: "nat \<Rightarrow> string \<Rightarrow> int option" where
  "parse_digits radix s =
     (let z = takeWhile (is_digit radix) s
      in if z = [] then None else Some (digits_value radix z))"

definition parse_unsigned :: "string \<Rightarrow> int option" where
  "parse_unsigned s =
     (case s of
        c0 # c1 # rest \<Rightarrow>
          if c0 = CHR ''0'' \<and> (c1 = CHR ''x'' \<or> c1 = CHR ''X'') then parse_digits 16 rest
          else parse_digits 10 s
      | _ \<Rightarrow> parse_digits 10 s)"

definition parseInt :: "string option \<Rightarrow> int option" where
  "parseInt arg =
     (let inputString = (case arg of None \<Rightarrow> ''undefined'' | Some x \<Rightarrow> x);
          s = dropWhile is_space inputString
      in case s of
           [] \<Rightarrow> None
         | c # rest \<Rightarrow>
             if c = CHR ''-'' then map_option uminus (parse_unsigned rest)
             else if c = CHR ''+'' then parse_unsigned rest
             else parse_unsigned s)"

text \<open>\<open>Number.parseInt(x) || dflt\<close>: \<open>NaN\<close> and 0 are falsy.\<close>

definition parseInt_or :: "string option \<Rightarrow> int \<Rightarrow> int" where
  "parseInt_or arg dflt = (case parseInt arg of None \<Rightarrow> dflt | Some n \<Rightarrow> if n = 0 then dflt else n)"

text \<open>What one line of input makes the loop do.\<close>

datatype command =
    Quit
  | Print string
  | SearchCall jsval     \<comment> \<open>\<open>searchArticles\<close> with this object\<close>
  | ArticleCall jsval    \<comment> \<open>\<open>getArticle\<close> with this object\<close>

definition chatCommand :: "ZendeskClient \<Rightarrow> string \<Rightarrow> command" where
  "chatCommand client input =
     (if map to_lower input = ''quit'' then Quit
      else
        let parts = split_space input;
            command = map to_lower (case part parts 0 of None \<Rightarrow> [] | Some p \<Rightarrow> p)
        in if command = ''search'' then
             (case part parts 1 of
                None \<Rightarrow> Print ''Usage: search <keyword> [locale] [page] [per_page]''
              | Some query \<Rightarrow>
                  let locale = (case part parts 2 of
                                  None \<Rightarrow> clientLocale client
                                | Some l \<Rightarrow> if l = [] then clientLocale client else l);
                      page = parseInt_or (part parts 3) 1;
                      per_page = parseInt_or (part parts 4) 20
                  in SearchCall (Obj [(''query'', Str query), (''locale'', Str locale),
                                      (''page'', Num page), (''per_page'', Num per_page)]))
           else if command = ''article'' then
             (case part parts 1 of
                None \<Rightarrow> Print ''Usage: article <articleID> [locale]''
              | Some p1 \<Rightarrow>
                  let id = (case parseInt (Some p1) of None \<Rightarrow> NaN | Some n \<Rightarrow> Num n);
                      locale = (case part parts 2 of
                                  None \<Rightarrow> clientLocale client
                                | Some l \<Rightarrow> if l = [] then clientLocale client else l)
                  in ArticleCall (Obj [(''id'', id), (''locale'', Str locale)]))
           else Print ''Unknown command. Available commands: search, article, quit'')"

text \<open>The eight fields that both filters copy.\<close>

definition allow_list :: "string list" where
  "allow_list = [''id'', ''url'', ''html_url'', ''author_id'', ''created_at'', ''updated_at'',
                 ''title'', ''label_names'']"

section \<open>The filters of the two operations\<close>

lemma picked_keys:
  "keys (Obj [(''id'', a), (''url'', b), (''html_url'', c), (''author_id'', d),
              (''created_at'', e), (''updated_at'', f), (''title'', g), (''label_names'', h)])
   = set allow_list"
  by (simp add: allow_list_def)

lemma body_not_allowed: "''body'' \<notin> set allow_list"
  by (simp add: allow_list_def)

lemma picked_field:
  "k \<in> set allow_list \<Longrightarrow>
   field (Obj [(''id'', F ''id''), (''url'', F ''url''), (''html_url'', F ''html_url''),
               (''author_id'', F ''author_id''), (''created_at'', F ''created_at''),
               (''updated_at'', F ''updated_at''), (''title'', F ''title''),
               (''label_names'', F ''label_names'')]) k = F k"
  by (auto simp add: allow_list_def)

lemma picked_body_field:
  "k \<in> set allow_list \<Longrightarrow>
   field (Obj [(''id'', F ''id''), (''url'', F ''url''), (''html_url'', F ''html_url''),
               (''author_id'', F ''author_id''), (''created_at'', F ''created_at''),
               (''updated_at'', F ''updated_at''), (''title'', F ''title''),
               (''label_names'', F ''label_names''), (''body'', b)]) k = F k"
  by (auto simp add: allow_list_def)

lemma picked_body_body:
  "field (Obj [(''id'', a), (''url'', b), (''html_url'', c), (''author_id'', d),
              (''created_at'', e), (''updated_at'', f), (''title'', g), (''label_names'', h),
              (''body'', body)]) ''body'' = body"
  by simp

text \<open>
  Claim C1, as the code has it. For every raw article \<open>R\<close> (an object), the object that
  \<open>searchArticles\<close> maps \<open>R\<close> to has exactly the eight allow-listed names as its field
  set, whichever of them \<open>R\<close> has: the object literal of the source writes all eight, and
  a name that \<open>R\<close> lacks is there with the value \<open>undefined\<close>. There is no \<open>body\<close> field.
  Each of the eight values is the one \<open>R\<close> has, so the fields with a value other than
  \<open>undefined\<close> are those of the eight that \<open>R\<close> has with such a value.
\<close>

theorem searchFilter_fields:
  "\<exists>P. searchFilter (Obj kvs) = Inr P
       \<and> keys P = set allow_list
       \<and> ''body'' \<notin> keys P
       \<and> (\<forall>k \<in> set allow_list. field P k = field (Obj kvs) k)
       \<and> {k \<in> keys P. field P k \<noteq> Undefined} = {k \<in> set allow_list. field (Obj kvs) k \<noteq> Undefined}"
proof -
  define R where "R = Obj kvs"
  define P where "P = Obj [(''id'', field R ''id''), (''url'', field R ''url''),
                 (''html_url'', field R ''html_url''), (''author_id'', field R ''author_id''),
                 (''created_at'', field R ''created_at''), (''updated_at'', field R ''updated_at''),
                 (''title'', field R ''title''), (''label_names'', field R ''label_names'')]"
  have 1: "searchFilter R = Inr P"
    by (simp add: searchFilter_def P_def R_def)
  have 2: "keys P = set allow_list"
    unfolding P_def by (rule picked_keys)
  have 3: "\<forall>k \<in> set allow_list. field P k = field R k"
    unfolding P_def using picked_field [where F = "field R"] by blast
  have 4: "{k \<in> keys P. field P k \<noteq> Undefined} = {k \<in> set allow_list. field R k \<noteq> Undefined}"
    using 2 3 by auto
  have 5: "''body'' \<notin> keys P"
    using 2 body_not_allowed by simp
  from 1 2 3 4 5 show ?thesis unfolding R_def by blast
qed

text \<open>An article with two of the eight fields and a body.\<close>

theorem searchFilter_fields_witness:
  "\<exists>P. searchFilter (Obj [(''id'', Num 7), (''title'', Str ''Billing''), (''body'', Str ''<p>x</p>'')]) = Inr P
       \<and> keys P = set allow_list
       \<and> ''body'' \<notin> keys P
       \<and> (\<forall>k \<in> set allow_list. field P k = field (Obj [(''id'', Num 7), (''title'', Str ''Billing''), (''body'', Str ''<p>x</p>'')]) k)
       \<and> {k \<in> keys P. field P k \<noteq> Undefined} = {k \<in> set allow_list. field (Obj [(''id'', Num 7), (''title'', Str ''Billing''), (''body'', Str ''<p>x</p>'')]) k \<noteq> Undefined}"
  by (rule searchFilter_fields)

text \<open>
  Claim C1 as stated fails: for an article with \<open>id\<close> and \<open>title\<close> only, the field set of
  the result is not the set of the allow-listed fields present in the article; \<open>url\<close> is
  in the one and not in the other.
\<close>

theorem searchFilter_fields_counterexample:
  "searchFilter (Obj [(''id'', Num 7), (''title'', Str ''Billing'')])
     = Inr (Obj [(''id'', Num 7), (''url'', Undefined), (''html_url'', Undefined),
                 (''author_id'', Undefined), (''created_at'', Undefined),
                 (''updated_at'', Undefined), (''title'', Str ''Billing''),
                 (''label_names'', Undefined)])
   \<and> keys (Obj [(''id'', Num 7), (''url'', Undefined), (''html_url'', Undefined),
                 (''author_id'', Undefined), (''created_at'', Undefined),
                 (''updated_at'', Undefined), (''title'', Str ''Billing''),
                 (''label_names'', Undefined)])
       \<noteq> set allow_list \<inter> keys (Obj [(''id'', Num 7), (''title'', Str ''Billing'')])"
proof -
  have a: "searchFilter (Obj [(''id'', Num 7), (''title'', Str ''Billing'')])
     = Inr (Obj [(''id'', Num 7), (''url'', Undefined), (''html_url'', Undefined),
                 (''author_id'', Undefined), (''created_at'', Undefined),
                 (''updated_at'', Undefined), (''title'', Str ''Billing''),
                 (''label_names'', Undefined)])"
    by (simp add: searchFilter_def)
  have b: "''url'' \<in> keys (Obj [(''id'', Num 7), (''url'', Undefined), (''html_url'', Undefined),
                 (''author_id'', Undefined), (''created_at'', Undefined),
                 (''updated_at'', Undefined), (''title'', Str ''Billing''),
                 (''label_names'', Undefined)])"
    by simp
  have c: "''url'' \<notin> set allow_list \<inter> keys (Obj [(''id'', Num 7), (''title'', Str ''Billing'')])"
    by simp
  from b c have "keys (Obj [(''id'', Num 7), (''url'', Undefined), (''html_url'', Undefined),
                 (''author_id'', Undefined), (''created_at'', Undefined),
                 (''updated_at'', Undefined), (''title'', Str ''Billing''),
                 (''label_names'', Undefined)])
       \<noteq> set allow_list \<inter> keys (Obj [(''id'', Num 7), (''title'', Str ''Billing'')])"
    by (metis)
  with a show ?thesis by (rule conjI)
qed

lemma cleanHtmlContent_Str: "cleanHtmlContent (Str s) = Inr (Str (normalize_html s))"
  by (simp add: cleanHtmlContent_def normalize_html_def)

lemma cleanHtmlContent_Undefined: "cleanHtmlContent Undefined = Inr Undefined"
  by (simp add: cleanHtmlContent_def)

lemma articleFilter_Inr:
  assumes "cleanHtmlContent (field R ''body'') = Inr b"
  shows "\<exists>P. articleFilter R = Inr P \<and> field P ''body'' = b
             \<and> (\<forall>k \<in> set allow_list. field P k = field R k)"
proof -
  define P where "P = Obj [(''id'', field R ''id''), (''url'', field R ''url''),
                 (''html_url'', field R ''html_url''), (''author_id'', field R ''author_id''),
                 (''created_at'', field R ''created_at''), (''updated_at'', field R ''updated_at''),
                 (''title'', field R ''title''), (''label_names'', field R ''label_names''),
                 (''body'', b)]"
  have 1: "articleFilter R = Inr P"
    using assms by (simp add: articleFilter_def P_def)
  have 2: "field P ''body'' = b"
    unfolding P_def by (rule picked_body_body)
  have 3: "\<forall>k \<in> set allow_list. field P k = field R k"
    unfolding P_def using picked_body_field [where F = "field R"] by blast
  from 1 2 3 show ?thesis by blast
qed

lemma field_assign: "field (Obj (assign kvs k v)) k = v"
  by (induction kvs) auto

lemma articleResult_article:
  assumes "field data ''article'' = Obj kvs" and "articleFilter (Obj kvs) = Inr P"
  shows "\<exists>data'. articleResult data = Inr data' \<and> field data' ''article'' = P"
proof (cases data)
  case (Obj dkvs)
  with assms have "articleResult data = Inr (Obj (assign dkvs ''article'' P))"
    by (simp add: articleResult_def del: field.simps)
  then show ?thesis
    by (simp add: field_assign del: field.simps)
qed (use assms in simp_all)

text \<open>\<open>getArticle\<close> on a response of the transport: one call, and the filter on its data.\<close>

lemma getArticle_response:
  assumes "\<not> nullish ps"
    and "get (world st) (axios_config client (fst (articleRequest client ps))
           (snd (articleRequest client ps))) = (Inr data, w)"
  shows "getArticle get client ps st
         = (articleResult data, st\<lparr> world := w, calls := calls st + 1 \<rparr>)"
  using assms by (simp add: getArticle_def makeRequest_def split_beta Let_def)

lemma articleResult_body:
  assumes "field data ''article'' = Obj kvs"
    and "cleanHtmlContent (field (Obj kvs) ''body'') = Inr b"
  shows "\<exists>data'. articleResult data = Inr data'
           \<and> field (field data' ''article'') ''body'' = b
           \<and> (\<forall>k \<in> set allow_list. field (field data' ''article'') k = field (Obj kvs) k)"
  using articleFilter_Inr [OF assms(2)] articleResult_article [OF assms(1)]
  by blast

text \<open>
  Claim C2. Let the transport answer the request of \<open>getArticle\<close> with \<open>data\<close>, whose
  \<open>article\<close> is the raw article \<open>R\<close> (an object). When the body of \<open>R\<close> is a string \<open>s\<close>,
  \<open>getArticle\<close> returns, after this one call of the transport, the data with an article
  whose body is \<open>normalize s\<close> and whose eight allow-listed fields have the values they
  have in \<open>R\<close>. When \<open>R\<close> has no body, the body of the result is \<open>undefined\<close>, as
  \<open>cleanHtmlContent\<close> returns \<open>undefined\<close> as it is. (The declared type of the body is
  \<open>string | undefined\<close>.)
\<close>

theorem getArticle_body_normalized:
  "\<not> nullish ps \<Longrightarrow>
   get (world st) (axios_config client (fst (articleRequest client ps))
     (snd (articleRequest client ps))) = (Inr data, w) \<Longrightarrow>
   field data ''article'' = Obj kvs \<Longrightarrow>
   (field (Obj kvs) ''body'' = Str s \<longrightarrow>
      (\<exists>data'. getArticle get client ps st
                 = (Inr data', st\<lparr> world := w, calls := calls st + 1 \<rparr>)
           \<and> field (field data' ''article'') ''body'' = Str (normalize_html s)
           \<and> (\<forall>k \<in> set allow_list. field (field data' ''article'') k = field (Obj kvs) k)))
   \<and> (field (Obj kvs) ''body'' = Undefined \<longrightarrow>
      (\<exists>data'. getArticle get client ps st
                 = (Inr data', st\<lparr> world := w, calls := calls st + 1 \<rparr>)
           \<and> field (field data' ''article'') ''body'' = Undefined
           \<and> (\<forall>k \<in> set allow_list. field (field data' ''article'') k = field (Obj kvs) k)))"
proof (intro conjI impI)
  assume ps: "\<not> nullish ps"
    and get: "get (world st) (axios_config client (fst (articleRequest client ps))
       (snd (articleRequest client ps))) = (Inr data, w)"
    and a: "field data ''article'' = Obj kvs"
  have r: "getArticle get client ps st
         = (articleResult data, st\<lparr> world := w, calls := calls st + 1 \<rparr>)"
    using ps get by (rule getArticle_response)
  {
    assume "field (Obj kvs) ''body'' = Str s"
    then have "cleanHtmlContent (field (Obj kvs) ''body'') = Inr (Str (normalize_html s))"
      by (simp only: cleanHtmlContent_Str)
    from articleResult_body [OF a this] r
    show "\<exists>data'. getArticle get client ps st
                 = (Inr data', st\<lparr> world := w, calls := calls st + 1 \<rparr>)
           \<and> field (field data' ''article'') ''body'' = Str (normalize_html s)
           \<and> (\<forall>k \<in> set allow_list. field (field data' ''article'') k = field (Obj kvs) k)"
      by auto
  }
  {
    assume "field (Obj kvs) ''body'' = Undefined"
    then have "cleanHtmlContent (field (Obj kvs) ''body'') = Inr Undefined"
      by (simp only: cleanHtmlContent_Undefined)
    from articleResult_body [OF a this] r
    show "\<exists>data'. getArticle get client ps st
                 = (Inr data', st\<lparr> world := w, calls := calls st + 1 \<rparr>)
           \<and> field (field data' ''article'') ''body'' = Undefined
           \<and> (\<forall>k \<in> set allow_list. field (field data' ''article'') k = field (Obj kvs) k)"
      by auto
  }
qed

text \<open>
  \<open>getArticle({id: 7})\<close> on a transport that answers with an article with an empty
  paragraph in its body.
\<close>

lemma normalize_example_small: "normalize_html ''<p></p>Hi'' = ''Hi''"
  by code_simp

theorem getArticle_body_normalized_witness:
  "\<exists>data'. getArticle
          (\<lambda>w r. (Inr (Obj [(''article'', Obj [(''id'', Num 7), (''body'', Str ''<p></p>Hi'')])]), Suc w))
          (new_ZendeskClient \<lparr> subdomain = ''acme'', email = ''a@b.c'', apiToken = ''t'', defaultLocale = None \<rparr>)
          (Obj [(''id'', Num 7)]) \<lparr> world = 0, calls = 0, console = [] \<rparr>
        = (Inr data', \<lparr> world = 1, calls = 1, console = [] \<rparr>)
       \<and> field (field data' ''article'') ''body'' = Str ''Hi''
       \<and> field (field data' ''article'') ''id'' = Num 7"
proof -
  let ?get = "\<lambda>w r. (Inr (Obj [(''article'', Obj [(''id'', Num 7), (''body'', Str ''<p></p>Hi'')])]), Suc w)"
  let ?client = "new_ZendeskClient \<lparr> subdomain = ''acme'', email = ''a@b.c'', apiToken = ''t'', defaultLocale = None \<rparr>"
  let ?st = "\<lparr> world = 0::nat, calls = 0, console = [] \<rparr>"
  have a: "\<not> nullish (Obj [(''id'', Num 7)])"
    by simp
  have b: "?get (world ?st) (axios_config ?client (fst (articleRequest ?client (Obj [(''id'', Num 7)])))
        (snd (articleRequest ?client (Obj [(''id'', Num 7)]))))
      = (Inr (Obj [(''article'', Obj [(''id'', Num 7), (''body'', Str ''<p></p>Hi'')])]), Suc 0)"
    by simp
  have c: "field (Obj [(''article'', Obj [(''id'', Num 7), (''body'', Str ''<p></p>Hi'')])]) ''article''
           = Obj [(''id'', Num 7), (''body'', Str ''<p></p>Hi'')]"
    by simp
  have d: "field (Obj [(''id'', Num 7), (''body'', Str ''<p></p>Hi'')]) ''body'' = Str ''<p></p>Hi''"
    by simp
  from getArticle_body_normalized [where get = ?get and client = ?client and st = ?st
      and ps = "Obj [(''id'', Num 7)]" and w = "Suc 0" and s = "''<p></p>Hi''"
      and data = "Obj [(''article'', Obj [(''id'', Num 7), (''body'', Str ''<p></p>Hi'')])]"
      and kvs = "[(''id'', Num 7), (''body'', Str ''<p></p>Hi'')]", OF a b c] d
  obtain data' where
    "getArticle ?get ?client (Obj [(''id'', Num 7)]) ?st
       = (Inr data', ?st\<lparr> world := Suc 0, calls := calls ?st + 1 \<rparr>)"
    "field (field data' ''article'') ''body'' = Str (normalize_html ''<p></p>Hi'')"
    "\<forall>k \<in> set allow_list. field (field data' ''article'') k
        = field (Obj [(''id'', Num 7), (''body'', Str ''<p></p>Hi'')]) k"
    by blast
  moreover have "''id'' \<in> set allow_list" by (simp add: allow_list_def)
  ultimately show ?thesis
    by (auto simp add: normalize_example_small)
qed

section \<open>Requests, defaults and failures of the transport\<close>

text \<open>
  Claim C6. \<open>searchArticles({query: q})\<close> with nothing else given asks the transport for
  \<open>{base}/articles/search.json\<close> with \<open>query = q\<close>, the locale of the configuration
  (\<open>"en"\<close> when the configuration has none), \<open>page = 1\<close> and \<open>per_page = 20\<close>, with the
  user name \<open>{email}/token\<close> and the API token as the password.
\<close>

theorem search_defaults:
  "searchRequest (new_ZendeskClient cfg) (Obj [(''query'', Str q)])
     = (''https://'' @ subdomain cfg @ ''.zendesk.com/api/v2/help_center/articles/search.json'',
        [(''query'', Str q),
         (''locale'', Str (case defaultLocale cfg of None \<Rightarrow> ''en'' | Some l \<Rightarrow> if l = [] then ''en'' else l)),
         (''page'', Num 1), (''per_page'', Num 20)])
   \<and> searchArticles get (new_ZendeskClient cfg) (Obj [(''query'', Str q)]) st
     = (case get (world st) \<lparr>
           url = ''https://'' @ subdomain cfg @ ''.zendesk.com/api/v2/help_center/articles/search.json'',
           params = [(''query'', Str q),
             (''locale'', Str (case defaultLocale cfg of None \<Rightarrow> ''en'' | Some l \<Rightarrow> if l = [] then ''en'' else l)),
             (''page'', Num 1), (''per_page'', Num 20)],
           username = email cfg @ ''/token'',
           password = apiToken cfg \<rparr> of
          (Inl err, w) \<Rightarrow> (Inl err, st\<lparr> world := w, calls := calls st + 1, console := console st @ [err] \<rparr>)
        | (Inr data, w) \<Rightarrow> (searchResults data, st\<lparr> world := w, calls := calls st + 1 \<rparr>))"
  by (simp add: searchRequest_def new_ZendeskClient_def or_default_def searchArticles_def makeRequest_def axios_config_def
       split: prod.splits sum.splits)

lemma chatCommand_SearchCall:
  assumes "chatCommand client input = SearchCall ps"
  shows "field ps ''page'' = Num (parseInt_or (part (split_space input) 3) 1)
       \<and> field ps ''per_page'' = Num (parseInt_or (part (split_space input) 4) 20)"
  using assms
  by (auto simp add: chatCommand_def Let_def split: if_splits option.splits)

lemma searchRequest_params:
  "map_of (snd (searchRequest client ps)) ''page'' = Some (or_default (field ps ''page'') (Num 1))
   \<and> map_of (snd (searchRequest client ps)) ''per_page'' = Some (or_default (field ps ''per_page'') (Num 20))"
  by (simp add: searchRequest_def Let_def)

text \<open>
  Claim C4, as the code has it. The fall-back is that of the console command: when
  \<open>chatLoop\<close> reads \<open>search <keyword> [locale] [page] [per_page]\<close> and \<open>parseInt\<close> gives
  \<open>NaN\<close> for the page (for the page size), the request has \<open>page = 1\<close> (\<open>per_page = 20\<close>),
  and nothing is thrown. \<open>searchArticles\<close> itself puts 1 and 20 in place of \<open>undefined\<close> only: a
  value it is given goes into the request as it is.
\<close>

theorem chatLoop_page_fallback:
  "chatCommand client input = SearchCall ps \<Longrightarrow>
   (parseInt (part (split_space input) 3) = None
      \<longrightarrow> map_of (snd (searchRequest client ps)) ''page'' = Some (Num 1))
   \<and> (parseInt (part (split_space input) 4) = None
      \<longrightarrow> map_of (snd (searchRequest client ps)) ''per_page'' = Some (Num 20))
   \<and> map_of (snd (searchRequest client ps')) ''page'' = Some (or_default (field ps' ''page'') (Num 1))
   \<and> map_of (snd (searchRequest client ps')) ''per_page'' = Some (or_default (field ps' ''per_page'') (Num 20))"
  using chatCommand_SearchCall [of client input ps] searchRequest_params [of client ps]
    searchRequest_params [of client ps']
  by (simp add: parseInt_or_def or_default_def)

text \<open>The input line \<open>search billing en abc\<close>.\<close>

lemma chat_example:
  "chatCommand (new_ZendeskClient \<lparr> subdomain = ''acme'', email = ''a@b.c'', apiToken = ''t'', defaultLocale = None \<rparr>)
      ''search billing en abc''
   = SearchCall (Obj [(''query'', Str ''billing''), (''locale'', Str ''en''), (''page'', Num 1), (''per_page'', Num 20)])"
  by code_simp

lemma chat_example_parse:
  "parseInt (part (split_space ''search billing en abc'') 3) = None \<and> parseInt (part (split_space ''search billing en abc'') 4) = None"
  by code_simp

theorem chatLoop_page_fallback_witness:
  "map_of (snd (searchRequest 
      (new_ZendeskClient \<lparr> subdomain = ''acme'', email = ''a@b.c'', apiToken = ''t'', defaultLocale = None \<rparr>)
      (Obj [(''query'', Str ''billing''), (''locale'', Str ''en''), (''page'', Num 1), (''per_page'', Num 20)]))) ''page'' = Some (Num 1)
  \<and> parseInt (part (split_space ''search billing en abc'') 3) = None"
  using chatLoop_page_fallback [OF chat_example] chat_example_parse
  by blast

text \<open>
  Claim C4 as stated fails: \<open>searchArticles({query: "billing", page: "abc"})\<close> builds a
  request with \<open>page = "abc"\<close>, not 1.
\<close>

theorem search_page_counterexample:
  "map_of (snd (searchRequest
      (new_ZendeskClient \<lparr> subdomain = ''acme'', email = ''a@b.c'', apiToken = ''t'', defaultLocale = None \<rparr>)
      (Obj [(''query'', Str ''billing''), (''page'', Str ''abc'')]))) ''page'' = Some (Str ''abc'')
   \<and> Str ''abc'' \<noteq> Num 1"
  by (simp add: searchRequest_def or_default_def)

text \<open>
  Claim C5. When the transport throws \<open>err\<close> on the request of \<open>searchArticles\<close> (of
  \<open>getArticle\<close>), the operation throws the same \<open>err\<close> and returns nothing else; the
  transport has been called once, so the call is not tried again, and \<open>console.error\<close>
  has printed \<open>err\<close>.
\<close>

theorem transport_failure_propagates:
  "\<not> nullish ps \<Longrightarrow>
   (get (world st) (axios_config client (fst (searchRequest client ps)) (snd (searchRequest client ps)))
      = (Inl err, w)
    \<longrightarrow> searchArticles get client ps st
        = (Inl err, st\<lparr> world := w, calls := calls st + 1, console := console st @ [err] \<rparr>))
   \<and> (get (world st) (axios_config client (fst (articleRequest client ps)) (snd (articleRequest client ps)))
      = (Inl err, w)
    \<longrightarrow> getArticle get client ps st
        = (Inl err, st\<lparr> world := w, calls := calls st + 1, console := console st @ [err] \<rparr>))"
  by (simp add: searchArticles_def getArticle_def makeRequest_def split_beta Let_def)

text \<open>\<open>getArticle({id: 999})\<close> on a transport that answers with status 404.\<close>

theorem transport_failure_propagates_witness:
  "getArticle (\<lambda>w r. (Inl (RequestFailure ''status 404''), Suc w))
      (new_ZendeskClient \<lparr> subdomain = ''acme'', email = ''a@b.c'', apiToken = ''t'', defaultLocale = None \<rparr>)
      (Obj [(''id'', Num 999)]) \<lparr> world = 0, calls = 0, console = [] \<rparr>
    = (Inl (RequestFailure ''status 404''), \<lparr> world = 1, calls = 1, console = [RequestFailure ''status 404''] \<rparr>)"
  using transport_failure_propagates [of "Obj [(''id'', Num 999)]"
     "\<lambda>w r. (Inl (RequestFailure ''status 404''), Suc w)" "\<lparr> world = 0, calls = 0, console = [] \<rparr>" 
     "new_ZendeskClient \<lparr> subdomain = ''acme'', email = ''a@b.c'', apiToken = ''t'', defaultLocale = None \<rparr>"
     "RequestFailure ''status 404''" "Suc 0"]
  by simp

section \<open>The matcher and the replacement\<close>

text \<open>The equations of the matcher on an empty and on a non-empty input.\<close>

lemma m_Nil [simp]: "m ic [] inp opens caps = Some (inp, caps)"
  by (simp add: m.simps)

lemma m_One_Nil [simp]: "m ic (One a # r) [] opens caps = None"
  by (simp add: m.simps)

lemma m_One_Cons [simp]:
  "m ic (One a # r) (c # inp) opens caps =
     (if atom_matches ic a c then m ic r inp opens caps else None)"
  by (simp add: m.simps)

lemma m_Star_Nil [simp]: "m ic (Star a # r) [] opens caps = m ic r [] opens caps"
  by (simp add: m.simps)

lemma m_Star_Cons [simp]:
  "m ic (Star a # r) (c # inp) opens caps =
     (if atom_matches ic a c
      then (case m ic (Star a # r) inp opens caps of
              Some res \<Rightarrow> Some res
            | None \<Rightarrow> m ic r (c # inp) opens caps)
      else m ic r (c # inp) opens caps)"
  by (subst m.simps) simp

lemma m_Plus_Nil [simp]: "m ic (Plus a # r) [] opens caps = None"
  by (simp add: m.simps)

lemma m_Plus_Cons [simp]:
  "m ic (Plus a # r) (c # inp) opens caps =
     (if atom_matches ic a c then m ic (Star a # r) inp opens caps else None)"
  by (subst m.simps) simp

lemma m_LazyStar_Nil [simp]: "m ic (LazyStar a # r) [] opens caps = m ic r [] opens caps"
  by (subst m.simps) (simp split: option.splits)

lemma m_LazyStar_Cons [simp]:
  "m ic (LazyStar a # r) (c # inp) opens caps =
     (case m ic r (c # inp) opens caps of
        Some res \<Rightarrow> Some res
      | None \<Rightarrow> if atom_matches ic a c then m ic (LazyStar a # r) inp opens caps else None)"
  by (subst m.simps) (simp split: option.splits)

lemma m_Open [simp]: "m ic (Open n # r) inp opens caps = m ic r inp (opens(n \<mapsto> inp)) caps"
  by (simp add: m.simps)

lemma m_Close [simp]:
  "m ic (Close n # r) inp opens caps =
     (case opens n of
        None \<Rightarrow> m ic r inp opens caps
      | Some start \<Rightarrow> m ic r inp opens (caps(n \<mapsto> take (length start - length inp) start)))"
  by (simp add: m.simps)

lemma m_Backref [simp]:
  "m ic (Backref n # r) inp opens caps =
     (case caps n of
        None \<Rightarrow> m ic r inp opens caps
      | Some w \<Rightarrow>
          (case match_backref ic w inp of
             None \<Rightarrow> None
           | Some inp' \<Rightarrow> m ic r inp' opens caps))"
  by (simp add: m.simps)

text \<open>A character with one case matches itself only.\<close>

lemma case_tables_length: "length lower_case = length upper_case"
  by (simp add: lower_case_def upper_case_def)

lemma to_upper_caseless: "caseless a \<Longrightarrow> to_upper a = a"
proof -
  assume "caseless a"
  then have "a \<notin> fst ` set (zip lower_case upper_case)"
    by (auto simp add: caseless_def dest: set_zip_leftD)
  then have "map_of (zip lower_case upper_case) a = None"
    by (simp add: map_of_eq_None_iff)
  then show ?thesis by (simp add: to_upper_def)
qed

lemma to_upper_eq_caseless: "caseless a \<Longrightarrow> to_upper c = a \<Longrightarrow> c = a"
  by (auto simp add: to_upper_def caseless_def split: option.splits
           dest!: map_of_SomeD set_zip_rightD)

lemma canonicalize_caseless:
  "caseless a \<Longrightarrow> (canonicalize ic a = canonicalize ic c) = (a = c)"
  using to_upper_caseless [of a] to_upper_eq_caseless [of a c]
  by (auto simp add: canonicalize_def)

text \<open>
  The two case tables are one-to-one, so the characters with the canonical form of \<open>c\<close>
  are \<open>c\<close>, its upper-case and its lower-case form: a range of a class has \<open>c\<close> exactly
  when it has a character with the canonical form of \<open>c\<close>.
\<close>

lemma distinct_lower_case: "distinct lower_case"
  by (simp add: lower_case_def)

lemma distinct_upper_case: "distinct upper_case"
  by (simp add: upper_case_def)

lemma case_tables_disjoint: "set lower_case \<inter> set upper_case = {}"
  by (simp add: lower_case_def upper_case_def)

lemma to_upper_nth: "i < length lower_case \<Longrightarrow> to_upper (lower_case ! i) = upper_case ! i"
  using map_of_zip_nth [of lower_case upper_case i]
  by (simp add: to_upper_def case_tables_length distinct_lower_case)

lemma to_lower_nth: "i < length upper_case \<Longrightarrow> to_lower (upper_case ! i) = lower_case ! i"
  using map_of_zip_nth [of upper_case lower_case i]
  by (simp add: to_lower_def case_tables_length distinct_upper_case)

lemma to_upper_other: "c \<notin> set lower_case \<Longrightarrow> to_upper c = c"
proof -
  assume "c \<notin> set lower_case"
  then have "c \<notin> fst ` set (zip lower_case upper_case)"
    by (auto dest: set_zip_leftD)
  then have "map_of (zip lower_case upper_case) c = None"
    by (simp add: map_of_eq_None_iff)
  then show ?thesis by (simp add: to_upper_def)
qed

lemma to_lower_other: "c \<notin> set upper_case \<Longrightarrow> to_lower c = c"
proof -
  assume "c \<notin> set upper_case"
  then have "c \<notin> fst ` set (zip upper_case lower_case)"
    by (auto dest: set_zip_leftD)
  then have "map_of (zip upper_case lower_case) c = None"
    by (simp add: map_of_eq_None_iff)
  then show ?thesis by (simp add: to_lower_def)
qed

lemma upper_not_lower: "i < length upper_case \<Longrightarrow> upper_case ! i \<notin> set lower_case"
  using case_tables_disjoint nth_mem [of i upper_case] by blast

lemma same_canonical_form:
  "(to_upper a = to_upper c) = (a = c \<or> a = to_upper c \<or> a = to_lower c)"
proof
  assume eq: "to_upper a = to_upper c"
  show "a = c \<or> a = to_upper c \<or> a = to_lower c"
  proof (cases "a \<in> set lower_case")
    case True
    then obtain i where i: "i < length lower_case" "a = lower_case ! i"
      by (auto simp add: in_set_conv_nth)
    show ?thesis
    proof (cases "c \<in> set lower_case")
      case True
      then obtain j where j: "j < length lower_case" "c = lower_case ! j"
        by (auto simp add: in_set_conv_nth)
      with i eq have "upper_case ! i = upper_case ! j"
        by (simp add: to_upper_nth)
      with i j have "i = j"
        by (simp add: nth_eq_iff_index_eq distinct_upper_case case_tables_length)
      with i j show ?thesis by simp
    next
      case False
      with eq i have "c = upper_case ! i"
        by (simp add: to_upper_nth to_upper_other)
      with i have "to_lower c = a"
        by (simp add: to_lower_nth case_tables_length)
      then show ?thesis by simp
    qed
  next
    case False
    with eq show ?thesis by (simp add: to_upper_other)
  qed
next
  assume "a = c \<or> a = to_upper c \<or> a = to_lower c"
  then consider "a = c" | "a = to_upper c" | "a = to_lower c" by blast
  then show "to_upper a = to_upper c"
  proof cases
    case 1
    then show ?thesis by simp
  next
    case 2
    show ?thesis
    proof (cases "c \<in> set lower_case")
      case True
      then obtain j where j: "j < length lower_case" "c = lower_case ! j"
        by (auto simp add: in_set_conv_nth)
      with 2 have "a = upper_case ! j" by (simp add: to_upper_nth)
      with j have "to_upper a = a"
        by (simp add: to_upper_other upper_not_lower case_tables_length)
      with 2 show ?thesis by simp
    next
      case False
      with 2 show ?thesis by (simp add: to_upper_other)
    qed
  next
    case 3
    show ?thesis
    proof (cases "c \<in> set upper_case")
      case True
      then obtain i where i: "i < length upper_case" "c = upper_case ! i"
        by (auto simp add: in_set_conv_nth)
      with 3 have "a = lower_case ! i" by (simp add: to_lower_nth)
      with i have "to_upper a = c"
        by (simp add: to_upper_nth case_tables_length)
      moreover from i have "to_upper c = c"
        by (simp add: to_upper_other upper_not_lower)
      ultimately show ?thesis by simp
    next
      case False
      with 3 show ?thesis by (simp add: to_lower_other)
    qed
  qed
qed

lemma cclass_has_Range:
  "cclass_has ic (Range lo hi) c
     = (\<exists>a. between lo hi a \<and> canonicalize ic a = canonicalize ic c)"
  by (cases ic) (auto simp add: canonicalize_def same_canonical_form)

text \<open>A match takes a prefix of the input, of at least \<open>min_len\<close> characters.\<close>

lemma match_backref_suffix:
  "match_backref ic w inp = Some inp' \<Longrightarrow> \<exists>pre. inp = pre @ inp'"
proof (induction ic w inp rule: match_backref.induct)
  case (1 ic inp)
  then show ?case by simp
next
  case (2 ic a w)
  then show ?case by simp
next
  case (3 ic a w c inp)
  then show ?case by (auto split: if_splits intro: exI [where x = "c # pre" for pre])
qed

lemma m_suffix:
  "m ic r inp opens caps = Some (rest, caps') \<Longrightarrow>
   \<exists>pre. inp = pre @ rest \<and> min_len r \<le> length pre"
proof (induction ic r inp opens caps rule: m.induct)
  case (1 ic inp opens caps)
  then show ?case by simp
next
  case (2 ic a r inp opens caps)
  show ?case
  proof (cases inp)
    case Nil
    with 2 show ?thesis by simp
  next
    case (Cons c inp')
    with 2(2) have t: "atom_matches ic a c" and eq: "m ic r inp' opens caps = Some (rest, caps')"
      by (auto split: if_splits)
    from 2(1) [OF Cons t eq] obtain pre where "inp' = pre @ rest" "min_len r \<le> length pre"
      by auto
    then have "inp = (c # pre) @ rest \<and> min_len (One a # r) \<le> length (c # pre)"
      using Cons by simp
    then show ?thesis by blast
  qed
next
  case (3 ic a r inp opens caps)
  show ?case
  proof (cases inp)
    case Nil
    with 3 show ?thesis by simp
  next
    case (Cons c inp')
    show ?thesis
    proof (cases "atom_matches ic a c")
      case True
      show ?thesis
      proof (cases "m ic (Star a # r) inp' opens caps")
        case None
        with 3 Cons True show ?thesis by simp
      next
        case (Some res)
        with "3.prems" Cons True have eq: "m ic (Star a # r) inp' opens caps = Some (rest, caps')"
          by simp
        from "3.IH"(2) [OF Cons True eq] obtain pre where "inp' = pre @ rest" "min_len r \<le> length pre"
          by auto
        then have "inp = (c # pre) @ rest \<and> min_len (Star a # r) \<le> length (c # pre)"
          using Cons by simp
        then show ?thesis by blast
      qed
    next
      case False
      with 3 Cons show ?thesis by simp
    qed
  qed
next
  case (4 ic a r inp opens caps)
  show ?case
  proof (cases inp)
    case Nil
    with 4 show ?thesis by simp
  next
    case (Cons c inp')
    with 4(2) have t: "atom_matches ic a c" and eq: "m ic (Star a # r) inp' opens caps = Some (rest, caps')"
      by (auto split: if_splits)
    from 4(1) [OF Cons t eq] obtain pre where "inp' = pre @ rest" "min_len r \<le> length pre"
      by auto
    then have "inp = (c # pre) @ rest \<and> min_len (Plus a # r) \<le> length (c # pre)"
      using Cons by simp
    then show ?thesis by blast
  qed
next
  case (5 ic a r inp opens caps)
  show ?case
  proof (cases "m ic r inp opens caps")
    case (Some res)
    with 5 show ?thesis by (cases inp) auto
  next
    case None
    show ?thesis
    proof (cases inp)
      case Nil
      with 5 None show ?thesis by simp
    next
      case (Cons c inp')
      with 5(3) None have t: "atom_matches ic a c"
        and eq: "m ic (LazyStar a # r) inp' opens caps = Some (rest, caps')"
        by (auto split: if_splits)
      from 5(2) [OF None Cons t eq] obtain pre where "inp' = pre @ rest" "min_len r \<le> length pre"
        by auto
      then have "inp = (c # pre) @ rest \<and> min_len (LazyStar a # r) \<le> length (c # pre)"
        using Cons by simp
      then show ?thesis by blast
    qed
  qed
next
  case (6 ic n r inp opens caps)
  then show ?case by (simp add: fun_upd_def)
next
  case (7 ic n r inp opens caps)
  then show ?case by (auto simp add: fun_upd_def split: option.splits)
next
  case (8 ic n r inp opens caps)
  show ?case
  proof (cases "caps n")
    case None
    with 8 show ?thesis by simp
  next
    case (Some w)
    with 8(3) obtain inp' where b: "match_backref ic w inp = Some inp'"
      and eq: "m ic r inp' opens caps = Some (rest, caps')"
      by (auto split: option.splits)
    from 8(2) [OF Some b eq] obtain pre where p: "inp' = pre @ rest" "min_len r \<le> length pre"
      by auto
    from match_backref_suffix [OF b] obtain pre' where "inp = pre' @ inp'" by auto
    with p have "inp = (pre' @ pre) @ rest \<and> min_len (Backref n # r) \<le> length (pre' @ pre)"
      by simp
    then show ?thesis by blast
  qed
qed

text \<open>
  A pattern with a literal character of one case, to be matched once, matches no string
  without that character.
\<close>

lemma match_backref_set:
  "match_backref ic w inp = Some inp' \<Longrightarrow> set inp' \<subseteq> set inp"
  using match_backref_suffix [of ic w inp inp'] by auto

lemma m_needs_char:
  "One (Chr a) \<in> set r \<Longrightarrow> caseless a \<Longrightarrow> a \<notin> set inp \<Longrightarrow> m ic r inp opens caps = None"
proof (induction ic r inp opens caps rule: m.induct)
  case (1 ic inp opens caps)
  then show ?case by simp
next
  case (2 ic b r inp opens caps)
  then show ?case
    by (cases inp) (auto simp add: canonicalize_caseless)
next
  case (3 ic b r inp opens caps)
  then show ?case
    by (cases inp) (auto split: option.splits)
next
  case (4 ic b r inp opens caps)
  then show ?case
    by (cases inp) auto
next
  case (5 ic b r inp opens caps)
  then show ?case
    by (cases inp) (auto split: option.splits)
next
  case (6 ic n r inp opens caps)
  then show ?case by (simp add: fun_upd_def)
next
  case (7 ic n r inp opens caps)
  then show ?case by (auto simp add: fun_upd_def split: option.splits)
next
  case (8 ic n r inp opens caps)
  show ?case
  proof (cases "caps n")
    case None
    with 8 show ?thesis by simp
  next
    case (Some w)
    show ?thesis
    proof (cases "match_backref ic w inp")
      case None
      with Some show ?thesis by simp
    next
      case inp': (Some inp')
      with match_backref_set [OF inp'] "8.prems" have "a \<notin> set inp'" by auto
      with "8.IH"(2) [OF Some inp'] "8.prems" have "m ic r inp' opens caps = None" by simp
      with Some inp' show ?thesis by simp
    qed
  qed
qed

lemma match_at_needs_char:
  "One (Chr a) \<in> set (nodes rx) \<Longrightarrow> caseless a \<Longrightarrow> a \<notin> set s \<Longrightarrow> match_at rx s = None"
  by (simp add: match_at_def m_needs_char)

lemma has_match_needs_char:
  "One (Chr a) \<in> set (nodes rx) \<Longrightarrow> caseless a \<Longrightarrow> a \<notin> set s \<Longrightarrow> \<not> has_match rx s"
  by (induction s) (auto simp add: match_at_needs_char)

text \<open>Where the pattern matches nowhere, \<open>replace\<close> returns the string.\<close>

lemma replace_all_no_match:
  "\<not> has_match rx s \<Longrightarrow> replace_all rx rep s = s"
proof (induction s)
  case Nil
  then have "match_at rx [] = None" by (cases "match_at rx []") auto
  then show ?case by (subst replace_all.simps) simp
next
  case (Cons c cs)
  then have "match_at rx (c # cs) = None" and "\<not> has_match rx cs"
    by (cases "match_at rx (c # cs)"; auto split: if_splits)+
  with Cons.IH show ?case by (subst replace_all.simps) simp
qed

lemma match_at_suffix:
  "match_at rx s = Some (rest, caps) \<Longrightarrow>
   \<exists>pre. s = pre @ rest \<and> min_len (nodes rx) \<le> length pre"
  unfolding match_at_def by (rule m_suffix)

text \<open>
  A replacement shorter than every match makes the string shorter wherever there is a
  match, and adds no character that is not in the replacement.
\<close>

lemma replace_all_length:
  assumes rep: "\<And>caps. expand rep caps = t" and short: "length t < min_len (nodes rx)"
  shows "length (replace_all rx rep s) \<le> length s
       \<and> (has_match rx s \<longrightarrow> length (replace_all rx rep s) < length s)"
proof (induction s rule: length_induct)
  case (1 s)
  show ?case
  proof (cases "match_at rx s")
    case None
    show ?thesis
    proof (cases s)
      case Nil
      with None show ?thesis by (subst replace_all.simps, subst (2) replace_all.simps) simp
    next
      case (Cons c cs)
      with "1.IH" have "length (replace_all rx rep cs) \<le> length cs
         \<and> (has_match rx cs \<longrightarrow> length (replace_all rx rep cs) < length cs)"
        by simp
      with None Cons show ?thesis
        by (subst replace_all.simps, subst (2) replace_all.simps) auto
    qed
  next
    case (Some res)
    obtain rest caps where res: "res = (rest, caps)" by (cases res)
    from match_at_suffix [OF Some [unfolded res]] obtain pre
      where pre: "s = pre @ rest" "min_len (nodes rx) \<le> length pre" by auto
    from pre short have "length t < length pre"
      by linarith
    with pre have tl: "length t + length rest < length s"
      by simp
    then have lt: "length rest < length s"
      by simp
    with "1.IH" have "length (replace_all rx rep rest) \<le> length rest" by simp
    with tl Some res lt rep show ?thesis
      by (subst replace_all.simps, subst (2) replace_all.simps) simp
  qed
qed

lemma replace_all_set:
  assumes rep: "\<And>caps. expand rep caps = t"
  shows "set (replace_all rx rep s) \<subseteq> set s \<union> set t"
proof (induction s rule: length_induct)
  case (1 s)
  show ?case
  proof (cases "match_at rx s")
    case None
    show ?thesis
    proof (cases s)
      case Nil
      with None show ?thesis by (subst replace_all.simps) simp
    next
      case (Cons c cs)
      with "1.IH" have "set (replace_all rx rep cs) \<subseteq> set cs \<union> set t"
        by simp
      with None Cons show ?thesis
        by (subst replace_all.simps) auto
    qed
  next
    case (Some res)
    obtain rest caps where res: "res = (rest, caps)" by (cases res)
    from match_at_suffix [OF Some [unfolded res]] obtain pre
      where pre: "s = pre @ rest" by auto
    show ?thesis
    proof (cases "length rest < length s")
      case True
      with "1.IH" have "set (replace_all rx rep rest) \<subseteq> set rest \<union> set t" by simp
      with Some res True rep pre show ?thesis
        by (subst replace_all.simps) auto
    next
      case False
      show ?thesis
      proof (cases s)
        case Nil
        with Some res False rep show ?thesis by (subst replace_all.simps) simp
      next
        case (Cons c cs)
        with "1.IH" have "set (replace_all rx rep cs) \<subseteq> set cs \<union> set t"
          by simp
        with Some res False rep Cons show ?thesis
          by (subst replace_all.simps) auto
      qed
    qed
  qed
qed

section \<open>The pipeline on text without tags\<close>

text \<open>The ten replacements in their order.\<close>

lemma cleanHtml_pipeline:
  "cleanHtml x =
     replace_all tableCellPattern [Txt ''<td>'', Grp 1, Txt ''</td>'']
      (replace_all multipleLineBreaksPattern [Txt [CHR 0x0A]]
        (replace_all fontTagPattern [Grp 1]
          (replace_all spanTagPattern [Grp 1]
            (replace_all borderAttributePattern []
              (replace_all targetAttributePattern []
                (replace_all classAttributePattern []
                  (replace_all idAttributePattern []
                    (replace_all styleAttributePattern []
                      (replace_all emptyTagPattern [] x)))))))))"
  by (simp add: cleanHtml_def Let_def)

lemma caseless_lt: "caseless CHR ''<''"
  by (simp add: caseless_def lower_case_def upper_case_def)

lemma caseless_eq: "caseless CHR ''=''"
  by (simp add: caseless_def lower_case_def upper_case_def)

lemma caseless_newline: "caseless CHR 0x0A"
  by (simp add: caseless_def lower_case_def upper_case_def)

lemma emptyTag_needs_lt: "One (Chr CHR ''<'') \<in> set (nodes emptyTagPattern)"
  by (simp add: emptyTagPattern_def)

lemma wrapperTag_needs_lt: "One (Chr CHR ''<'') \<in> set (nodes (wrapperTagPattern name))"
  by (simp add: wrapperTagPattern_def)

lemma tableCell_needs_lt: "One (Chr CHR ''<'') \<in> set (nodes tableCellPattern)"
  by (simp add: tableCellPattern_def lits_def)


lemma lineBreaks_needs_newline: "One (Chr CHR 0x0A) \<in> set (nodes multipleLineBreaksPattern)"
  by (simp add: multipleLineBreaksPattern_def)

lemma attribute_min_len: "0 < min_len (nodes (attributePattern name))"
  by (simp add: attributePattern_def)

lemma lineBreaks_min_len: "min_len (nodes multipleLineBreaksPattern) = 2"
  by (simp add: multipleLineBreaksPattern_def)

text \<open>On a string with no \<open><\<close>, the steps with a tag pattern change nothing.\<close>

lemma no_lt_emptyTag: "CHR ''<'' \<notin> set s \<Longrightarrow> replace_all emptyTagPattern rep s = s"
  by (simp add: replace_all_no_match has_match_needs_char [OF emptyTag_needs_lt caseless_lt])

lemma no_lt_wrapperTag: "CHR ''<'' \<notin> set s \<Longrightarrow> replace_all (wrapperTagPattern name) rep s = s"
  by (simp add: replace_all_no_match has_match_needs_char [OF wrapperTag_needs_lt caseless_lt])

lemma no_lt_tableCell: "CHR ''<'' \<notin> set s \<Longrightarrow> replace_all tableCellPattern rep s = s"
  by (simp add: replace_all_no_match has_match_needs_char [OF tableCell_needs_lt caseless_lt])

text \<open>One attribute step, and the line-break step.\<close>

lemma attribute_step:
  "length (replace_all (attributePattern name) [] s) \<le> length s"
  "has_match (attributePattern name) s \<Longrightarrow> length (replace_all (attributePattern name) [] s) < length s"
  "set (replace_all (attributePattern name) [] s) \<subseteq> set s"
  using replace_all_length [of "[]" "[]" "attributePattern name" s]
        replace_all_set [of "[]" "[]" "attributePattern name" s]
  by (simp_all add: attribute_min_len)

lemma lineBreaks_step:
  "length (replace_all multipleLineBreaksPattern [Txt [CHR 0x0A]] s) \<le> length s"
  "has_match multipleLineBreaksPattern s \<Longrightarrow>
     length (replace_all multipleLineBreaksPattern [Txt [CHR 0x0A]] s) < length s"
  "set (replace_all multipleLineBreaksPattern [Txt [CHR 0x0A]] s) \<subseteq> set s \<union> {CHR 0x0A}"
  using replace_all_length [of "[Txt [CHR 0x0A]]" "[CHR 0x0A]" multipleLineBreaksPattern s]
        replace_all_set [of "[Txt [CHR 0x0A]]" "[CHR 0x0A]" multipleLineBreaksPattern s]
  by (simp_all add: lineBreaks_min_len)

lemma normalize_no_lt:
  assumes "CHR ''<'' \<notin> set x"
  shows "normalize_html x = text_steps x"
proof -
  define y1 where "y1 = replace_all styleAttributePattern [] x"
  define y2 where "y2 = replace_all idAttributePattern [] y1"
  define y3 where "y3 = replace_all classAttributePattern [] y2"
  define y4 where "y4 = replace_all targetAttributePattern [] y3"
  define y5 where "y5 = replace_all borderAttributePattern [] y4"
  define y6 where "y6 = replace_all multipleLineBreaksPattern [Txt [CHR 0x0A]] y5"
  have s1: "set y1 \<subseteq> set x" unfolding y1_def styleAttributePattern_def by (rule attribute_step)
  have s2: "set y2 \<subseteq> set y1" unfolding y2_def idAttributePattern_def by (rule attribute_step)
  have s3: "set y3 \<subseteq> set y2" unfolding y3_def classAttributePattern_def by (rule attribute_step)
  have s4: "set y4 \<subseteq> set y3" unfolding y4_def targetAttributePattern_def by (rule attribute_step)
  have s5: "set y5 \<subseteq> set y4" unfolding y5_def borderAttributePattern_def by (rule attribute_step)
  have s6: "set y6 \<subseteq> set y5 \<union> {CHR 0x0A}" unfolding y6_def by (rule lineBreaks_step)
  from s1 s2 s3 s4 s5 assms have n5: "CHR ''<'' \<notin> set y5" by blast
  with s6 have n6: "CHR ''<'' \<notin> set y6" by auto
  have "cleanHtml x = y6"
    unfolding cleanHtml_def Let_def spanTagPattern_def fontTagPattern_def
    using assms n5 n6
    by (simp add: no_lt_emptyTag no_lt_wrapperTag no_lt_tableCell
          y1_def [symmetric] y2_def [symmetric] y3_def [symmetric] y4_def [symmetric]
          y5_def [symmetric] y6_def [symmetric])
  moreover have "text_steps x = y6"
    by (simp add: text_steps_def y1_def y2_def y3_def y4_def y5_def y6_def)
  moreover have "x = [] \<Longrightarrow> text_steps x = []"
  proof -
    assume "x = []"
    with s1 s2 s3 s4 s5 have "y5 = []" by auto
    moreover have "\<not> has_match multipleLineBreaksPattern []"
      by (rule has_match_needs_char [OF lineBreaks_needs_newline caseless_newline]) simp
    ultimately have "y6 = []"
      unfolding y6_def by (simp add: replace_all_no_match del: has_match.simps)
    with \<open>text_steps x = y6\<close> show ?thesis by simp
  qed
  ultimately show ?thesis by (auto simp add: normalize_html_def)
qed

lemma attribute_step_fixed:
  "length (replace_all (attributePattern name) [] s) = length s \<Longrightarrow>
   \<not> has_match (attributePattern name) s \<and> replace_all (attributePattern name) [] s = s"
  using attribute_step(2) [of name s] replace_all_no_match [of "attributePattern name" s "[]"]
  by auto

lemma lineBreaks_step_fixed:
  "length (replace_all multipleLineBreaksPattern [Txt [CHR 0x0A]] s) = length s \<Longrightarrow>
   \<not> has_match multipleLineBreaksPattern s
   \<and> replace_all multipleLineBreaksPattern [Txt [CHR 0x0A]] s = s"
  using lineBreaks_step(2) [of s]
    replace_all_no_match [of multipleLineBreaksPattern s "[Txt [CHR 0x0A]]"]
  by auto

lemma text_steps_fixed:
  "(text_steps x = x) = (attribute_free x \<and> \<not> has_match multipleLineBreaksPattern x)"
proof
  assume free: "attribute_free x \<and> \<not> has_match multipleLineBreaksPattern x"
  then show "text_steps x = x"
    by (simp add: text_steps_def attribute_free_def replace_all_no_match)
next
  assume fixed: "text_steps x = x"
  define y1 where "y1 = replace_all styleAttributePattern [] x"
  define y2 where "y2 = replace_all idAttributePattern [] y1"
  define y3 where "y3 = replace_all classAttributePattern [] y2"
  define y4 where "y4 = replace_all targetAttributePattern [] y3"
  define y5 where "y5 = replace_all borderAttributePattern [] y4"
  define y6 where "y6 = replace_all multipleLineBreaksPattern [Txt [CHR 0x0A]] y5"
  have l1: "length y1 \<le> length x" unfolding y1_def styleAttributePattern_def by (rule attribute_step)
  have l2: "length y2 \<le> length y1" unfolding y2_def idAttributePattern_def by (rule attribute_step)
  have l3: "length y3 \<le> length y2" unfolding y3_def classAttributePattern_def by (rule attribute_step)
  have l4: "length y4 \<le> length y3" unfolding y4_def targetAttributePattern_def by (rule attribute_step)
  have l5: "length y5 \<le> length y4" unfolding y5_def borderAttributePattern_def by (rule attribute_step)
  have l6: "length y6 \<le> length y5" unfolding y6_def by (rule lineBreaks_step)
  have "y6 = x"
    using fixed by (simp add: text_steps_def y1_def y2_def y3_def y4_def y5_def y6_def)
  then have "length y6 = length x" by simp
  with l1 l2 l3 l4 l5 l6 have e: "length y1 = length x" "length y2 = length y1"
    "length y3 = length y2" "length y4 = length y3" "length y5 = length y4" "length y6 = length y5"
    by linarith+
  from e(1) have f1: "\<not> has_match styleAttributePattern x \<and> y1 = x"
    unfolding y1_def styleAttributePattern_def by (rule attribute_step_fixed)
  from e(2) have "\<not> has_match idAttributePattern y1 \<and> y2 = y1"
    unfolding y2_def idAttributePattern_def by (rule attribute_step_fixed)
  with f1 have f2: "\<not> has_match idAttributePattern x \<and> y2 = x" by simp
  from e(3) have "\<not> has_match classAttributePattern y2 \<and> y3 = y2"
    unfolding y3_def classAttributePattern_def by (rule attribute_step_fixed)
  with f2 have f3: "\<not> has_match classAttributePattern x \<and> y3 = x" by simp
  from e(4) have "\<not> has_match targetAttributePattern y3 \<and> y4 = y3"
    unfolding y4_def targetAttributePattern_def by (rule attribute_step_fixed)
  with f3 have f4: "\<not> has_match targetAttributePattern x \<and> y4 = x" by simp
  from e(5) have "\<not> has_match borderAttributePattern y4 \<and> y5 = y4"
    unfolding y5_def borderAttributePattern_def by (rule attribute_step_fixed)
  with f4 have f5: "\<not> has_match borderAttributePattern x \<and> y5 = x" by simp
  from e(6) have "\<not> has_match multipleLineBreaksPattern y5 \<and> y6 = y5"
    unfolding y6_def by (rule lineBreaks_step_fixed)
  with f5 have f6: "\<not> has_match multipleLineBreaksPattern x" by simp
  from f1 f2 f3 f4 f5 f6 show "attribute_free x \<and> \<not> has_match multipleLineBreaksPattern x"
    by (simp add: attribute_free_def)
qed

section \<open>Blank lines are collapsed in one pass\<close>


lemma atom_matches_ws: "atom_matches ic (Cls [WhiteSpace]) c = is_space c"
  by simp

lemma atom_matches_newline: "atom_matches False (Chr CHR 0x0A) c = (c = CHR 0x0A)"
  by (auto simp add: canonicalize_def)


text \<open>Where the line-break pattern matches at the start of a string.\<close>

lemma match_at_lineBreaks_Nil: "match_at multipleLineBreaksPattern [] = None"
  by (simp add: match_at_def multipleLineBreaksPattern_def)

lemma match_at_lineBreaks_Cons:
  "match_at multipleLineBreaksPattern (c # t) =
     (if c = CHR 0x0A
      then m False [Star (Cls [WhiteSpace]), One (Chr CHR 0x0A)] t Map.empty Map.empty
      else None)"
  by (simp add: match_at_def multipleLineBreaksPattern_def atom_matches_newline del: atom_matches.simps)










section \<open>The pattern of empty tag pairs\<close>

text \<open>
  A greedy star over a run of characters of its class, followed by a character that is
  not of the class: the first try of the matcher takes the whole run.
\<close>

lemma greedy_star_run:
  assumes "\<forall>c \<in> set w. atom_matches ic a c"
    and "case rest of [] \<Rightarrow> True | d # ds \<Rightarrow> \<not> atom_matches ic a d"
    and "m ic r rest opens caps = Some res"
  shows "m ic (Star a # r) (w @ rest) opens caps = Some res"
  using assms
proof (induction w)
  case Nil
  then show ?case by (cases rest) simp_all
next
  case (Cons c w)
  then show ?case by simp
qed


text \<open>The characters of the pattern that are no letters.\<close>

lemma caseless_gt: "caseless CHR ''>''"
  by (simp add: caseless_def lower_case_def upper_case_def)

lemma caseless_slash: "caseless CHR ''/''"
  by (simp add: caseless_def lower_case_def upper_case_def)


lemma chr_lt: "atom_matches ic (Chr CHR ''<'') c = (c = CHR ''<'')"
  using canonicalize_caseless [OF caseless_lt, of ic c] by auto




lemma lt_no_space: "\<not> is_space CHR ''<''"
  by code_simp



section \<open>What a match consists of\<close>

text \<open>
  Where the nodes match, the input begins with what the first node takes, and the rest
  of the nodes match after it.
\<close>

lemma m_One_Some:
  "m ic (One a # r) inp opens caps = Some res \<Longrightarrow>
   \<exists>c inp'. inp = c # inp' \<and> atom_matches ic a c \<and> m ic r inp' opens caps = Some res"
  by (cases inp) (auto split: if_splits)

lemma m_Star_Some:
  "m ic (Star a # r) inp opens caps = Some res \<Longrightarrow>
   \<exists>w rest. inp = w @ rest \<and> (\<forall>c \<in> set w. atom_matches ic a c)
             \<and> m ic r rest opens caps = Some res"
proof (induction inp)
  case Nil
  then show ?case by simp
next
  case (Cons c inp)
  have skip: "m ic r (c # inp) opens caps = Some res \<Longrightarrow> ?case"
  proof -
    assume "m ic r (c # inp) opens caps = Some res"
    then have "c # inp = [] @ (c # inp) \<and> (\<forall>d \<in> set []. atom_matches ic a d)
        \<and> m ic r (c # inp) opens caps = Some res"
      by simp
    then show ?case by blast
  qed
  show ?case
  proof (cases "atom_matches ic a c")
    case False
    with Cons.prems skip show ?thesis by simp
  next
    case True
    show ?thesis
    proof (cases "m ic (Star a # r) inp opens caps")
      case None
      with True Cons.prems skip show ?thesis by simp
    next
      case (Some y)
      with True Cons.prems have "m ic (Star a # r) inp opens caps = Some res"
        by simp
      from Cons.IH [OF this] obtain w rest where
        "inp = w @ rest" "\<forall>c \<in> set w. atom_matches ic a c" "m ic r rest opens caps = Some res"
        by blast
      with True have "c # inp = (c # w) @ rest \<and> (\<forall>d \<in> set (c # w). atom_matches ic a d)
          \<and> m ic r rest opens caps = Some res"
        by simp
      then show ?thesis by blast
    qed
  qed
qed

lemma m_LazyStar_Some:
  "m ic (LazyStar a # r) inp opens caps = Some res \<Longrightarrow>
   \<exists>w rest. inp = w @ rest \<and> (\<forall>c \<in> set w. atom_matches ic a c)
             \<and> m ic r rest opens caps = Some res"
proof (induction inp)
  case Nil
  then show ?case by simp
next
  case (Cons c inp)
  show ?case
  proof (cases "m ic r (c # inp) opens caps")
    case (Some y)
    with Cons.prems have "m ic r (c # inp) opens caps = Some res"
      by simp
    then have "c # inp = [] @ (c # inp) \<and> (\<forall>d \<in> set []. atom_matches ic a d)
        \<and> m ic r (c # inp) opens caps = Some res"
      by simp
    then show ?thesis by blast
  next
    case None
    with Cons.prems have t: "atom_matches ic a c"
      and "m ic (LazyStar a # r) inp opens caps = Some res"
      by (auto split: if_splits)
    from Cons.IH [OF this(2)] obtain w rest where
      "inp = w @ rest" "\<forall>c \<in> set w. atom_matches ic a c" "m ic r rest opens caps = Some res"
      by blast
    with t have "c # inp = (c # w) @ rest \<and> (\<forall>d \<in> set (c # w). atom_matches ic a d)
        \<and> m ic r rest opens caps = Some res"
      by simp
    then show ?thesis by blast
  qed
qed

lemma m_Plus_Some:
  "m ic (Plus a # r) inp opens caps = Some res \<Longrightarrow>
   \<exists>w rest. inp = w @ rest \<and> w \<noteq> [] \<and> (\<forall>c \<in> set w. atom_matches ic a c)
             \<and> m ic r rest opens caps = Some res"
proof (cases inp)
  case Nil
  assume "m ic (Plus a # r) inp opens caps = Some res"
  with Nil show ?thesis by simp
next
  case (Cons c inp')
  assume "m ic (Plus a # r) inp opens caps = Some res"
  with Cons have t: "atom_matches ic a c" and "m ic (Star a # r) inp' opens caps = Some res"
    by (auto split: if_splits)
  from m_Star_Some [OF this(2)] obtain w rest where
    "inp' = w @ rest" "\<forall>c \<in> set w. atom_matches ic a c" "m ic r rest opens caps = Some res"
    by blast
  with t Cons have "inp = (c # w) @ rest \<and> c # w \<noteq> [] \<and> (\<forall>d \<in> set (c # w). atom_matches ic a d)
      \<and> m ic r rest opens caps = Some res"
    by simp
  then show ?thesis by blast
qed

lemma m_lits_Some:
  "m ic (lits n @ r) inp opens caps = Some res \<Longrightarrow>
   \<exists>n' rest. inp = n' @ rest \<and> map (canonicalize ic) n' = map (canonicalize ic) n
              \<and> m ic r rest opens caps = Some res"
proof (induction n arbitrary: inp)
  case Nil
  then have "inp = [] @ inp \<and> map (canonicalize ic) [] = map (canonicalize ic) []
      \<and> m ic r inp opens caps = Some res"
    by (simp add: lits_def)
  then show ?case by blast
next
  case (Cons a n)
  then have "m ic (One (Chr a) # lits n @ r) inp opens caps = Some res"
    by (simp add: lits_def)
  from m_One_Some [OF this] obtain c inp' where
    c: "inp = c # inp'" "canonicalize ic a = canonicalize ic c"
    and "m ic (lits n @ r) inp' opens caps = Some res"
    by auto
  from Cons.IH [OF this(3)] obtain n' rest where
    "inp' = n' @ rest" "map (canonicalize ic) n' = map (canonicalize ic) n"
    "m ic r rest opens caps = Some res"
    by blast
  with c have "inp = (c # n') @ rest
      \<and> map (canonicalize ic) (c # n') = map (canonicalize ic) (a # n)
      \<and> m ic r rest opens caps = Some res"
    by simp
  then show ?case by blast
qed

lemma m_lits_same:
  "map (canonicalize ic) n' = map (canonicalize ic) n \<Longrightarrow>
   m ic (lits n @ r) (n' @ rest) opens caps = m ic r rest opens caps"
proof (induction n arbitrary: n')
  case Nil
  then show ?case by (simp add: lits_def)
next
  case (Cons a n)
  then obtain c n'' where n': "n' = c # n''" by (cases n') auto
  with Cons.prems have "canonicalize ic a = canonicalize ic c"
    and "map (canonicalize ic) n'' = map (canonicalize ic) n"
    by simp_all
  with Cons.IH [OF this(2)] n' show ?case
    by (simp add: lits_def)
qed

lemma star_some:
  "\<forall>c \<in> set w. atom_matches ic a c \<Longrightarrow> m ic r rest opens caps \<noteq> None \<Longrightarrow>
   m ic (Star a # r) (w @ rest) opens caps \<noteq> None"
proof (induction w)
  case Nil
  then show ?case by (cases rest) (auto split: option.splits)
next
  case (Cons c w)
  then show ?case by (auto split: option.splits)
qed

lemma has_match_iff:
  "has_match rx x = (\<exists>u s. x = u @ s \<and> match_at rx s \<noteq> None)"
proof (induction x)
  case Nil
  then show ?case by simp
next
  case (Cons c x)
  show ?case
  proof
    assume "has_match rx (c # x)"
    then consider "match_at rx (c # x) \<noteq> None" | "has_match rx x"
      by (auto split: if_splits)
    then show "\<exists>u s. c # x = u @ s \<and> match_at rx s \<noteq> None"
    proof cases
      case 1
      then have "c # x = [] @ (c # x) \<and> match_at rx (c # x) \<noteq> None" by simp
      then show ?thesis by blast
    next
      case 2
      with Cons.IH obtain u s where "x = u @ s" "match_at rx s \<noteq> None" by blast
      then have "c # x = (c # u) @ s \<and> match_at rx s \<noteq> None" by simp
      then show ?thesis by blast
    qed
  next
    assume "\<exists>u s. c # x = u @ s \<and> match_at rx s \<noteq> None"
    then obtain u s where us: "c # x = u @ s" "match_at rx s \<noteq> None" by blast
    show "has_match rx (c # x)"
    proof (cases u)
      case Nil
      with us have "match_at rx (c # x) \<noteq> None" by simp
      then show ?thesis by simp
    next
      case (Cons d u')
      with us have "x = u' @ s" by simp
      with us(2) Cons.IH have "has_match rx x" by blast
      then show ?thesis by simp
    qed
  qed
qed

section \<open>Where the patterns of text match\<close>

lemma caseless_dquote: "caseless dquote"
  by (simp add: caseless_def lower_case_def upper_case_def dquote_def)

lemma caseless_squote: "caseless squote"
  by (simp add: caseless_def lower_case_def upper_case_def squote_def)

lemma chr_eq: "atom_matches ic (Chr CHR ''='') c = (c = CHR ''='')"
  using canonicalize_caseless [OF caseless_eq, of ic c] by auto

lemma quote_class:
  "atom_matches ic (Cls [Lit dquote, Lit squote]) c = (c = dquote \<or> c = squote)"
  using canonicalize_caseless [OF caseless_dquote, of ic c]
    canonicalize_caseless [OF caseless_squote, of ic c]
  by auto

lemma not_quote_class:
  "atom_matches ic (NotCls [Lit dquote, Lit squote]) c = (c \<noteq> dquote \<and> c \<noteq> squote)"
  using canonicalize_caseless [OF caseless_dquote, of ic c]
    canonicalize_caseless [OF caseless_squote, of ic c]
  by auto

lemma canonicalize_True: "canonicalize True = to_upper"
  by (rule ext) (simp add: canonicalize_def)

text \<open>The tail of an attribute pattern, from \<open>=\<close> on.\<close>

lemma attribute_tail_Some:
  assumes "m True [One (Chr CHR ''=''), One (Cls [Lit dquote, Lit squote]),
                   Open 1, Star (NotCls [Lit dquote, Lit squote]), Close 1,
                   One (Cls [Lit dquote, Lit squote])] s opens caps = Some res"
  shows "\<exists>q1 v q2 t. s = ''='' @ q1 # v @ q2 # t
           \<and> (q1 = dquote \<or> q1 = squote) \<and> (q2 = dquote \<or> q2 = squote)
           \<and> dquote \<notin> set v \<and> squote \<notin> set v"
proof -
  from m_One_Some [OF assms] obtain c1 s1 where
    1: "s = c1 # s1" "c1 = CHR ''=''"
    and "m True [One (Cls [Lit dquote, Lit squote]),
                   Open 1, Star (NotCls [Lit dquote, Lit squote]), Close 1,
                   One (Cls [Lit dquote, Lit squote])] s1 opens caps = Some res"
    by (auto simp add: chr_eq simp del: atom_matches.simps)
  from m_One_Some [OF this(3)] obtain q1 s2 where
    2: "s1 = q1 # s2" "q1 = dquote \<or> q1 = squote"
    and "m True [Open 1, Star (NotCls [Lit dquote, Lit squote]), Close 1,
                   One (Cls [Lit dquote, Lit squote])] s2 opens caps = Some res"
    by (auto simp add: quote_class simp del: atom_matches.simps)
  then have "m True [Star (NotCls [Lit dquote, Lit squote]), Close 1,
                   One (Cls [Lit dquote, Lit squote])] s2 (opens(1 \<mapsto> s2)) caps = Some res"
    by simp
  from m_Star_Some [OF this] obtain v s3 where
    3: "s2 = v @ s3" "\<forall>c \<in> set v. c \<noteq> dquote \<and> c \<noteq> squote"
    and "m True [Close 1, One (Cls [Lit dquote, Lit squote])] s3 (opens(1 \<mapsto> s2)) caps = Some res"
    by (auto simp add: not_quote_class simp del: atom_matches.simps)
  then have "\<exists>caps'. m True [One (Cls [Lit dquote, Lit squote])] s3 (opens(1 \<mapsto> s2)) caps' = Some res"
    by auto
  then obtain caps' where
    "m True [One (Cls [Lit dquote, Lit squote])] s3 (opens(1 \<mapsto> s2)) caps' = Some res"
    by blast
  from m_One_Some [OF this] obtain q2 t where
    4: "s3 = q2 # t" "q2 = dquote \<or> q2 = squote"
    by (auto simp add: quote_class simp del: atom_matches.simps)
  from 1 2 3 4 have "s = ''='' @ q1 # v @ q2 # t
           \<and> (q1 = dquote \<or> q1 = squote) \<and> (q2 = dquote \<or> q2 = squote)
           \<and> dquote \<notin> set v \<and> squote \<notin> set v"
    by auto
  then show ?thesis by blast
qed

lemma attribute_tail_matches:
  assumes "q1 = dquote \<or> q1 = squote" and "q2 = dquote \<or> q2 = squote"
    and "dquote \<notin> set v" and "squote \<notin> set v"
  shows "m True [One (Chr CHR ''=''), One (Cls [Lit dquote, Lit squote]),
                 Open 1, Star (NotCls [Lit dquote, Lit squote]), Close 1,
                 One (Cls [Lit dquote, Lit squote])] (''='' @ q1 # v @ q2 # t) opens caps \<noteq> None"
proof -
  have "m True [Close 1, One (Cls [Lit dquote, Lit squote])] (q2 # t)
          (opens(1 \<mapsto> v @ q2 # t)) caps \<noteq> None"
    using assms(2) by (simp add: quote_class del: atom_matches.simps)
  moreover have "\<forall>c \<in> set v. atom_matches True (NotCls [Lit dquote, Lit squote]) c"
    using assms(3,4) by (auto simp add: not_quote_class simp del: atom_matches.simps)
  ultimately have "m True [Star (NotCls [Lit dquote, Lit squote]), Close 1,
          One (Cls [Lit dquote, Lit squote])] (v @ q2 # t) (opens(1 \<mapsto> v @ q2 # t)) caps \<noteq> None"
    by (intro star_some)
  with assms(1) show ?thesis
    by (simp add: quote_class chr_eq del: atom_matches.simps)
qed

text \<open>An attribute pattern matches in a string exactly where the string has the shape.\<close>

lemma attributePattern_nodes:
  "nodes (attributePattern name) =
     Plus (Cls [WhiteSpace]) # lits name @
       [One (Chr CHR ''=''), One (Cls [Lit dquote, Lit squote]),
        Open 1, Star (NotCls [Lit dquote, Lit squote]), Close 1,
        One (Cls [Lit dquote, Lit squote])]"
  by (simp add: attributePattern_def)

lemma has_match_attribute:
  "has_match (attributePattern name) x = attribute_shaped name x"
proof
  assume "has_match (attributePattern name) x"
  then obtain u s res where x: "x = u @ s" and "match_at (attributePattern name) s = Some res"
    by (auto simp add: has_match_iff)
  then have "m True (Plus (Cls [WhiteSpace]) # lits name @
       [One (Chr CHR ''=''), One (Cls [Lit dquote, Lit squote]),
        Open 1, Star (NotCls [Lit dquote, Lit squote]), Close 1,
        One (Cls [Lit dquote, Lit squote])]) s Map.empty Map.empty = Some res"
    by (simp add: match_at_def attributePattern_nodes attributePattern_def)
  from m_Plus_Some [OF this] obtain w s1 where
    w: "s = w @ s1" "w \<noteq> []" "\<forall>c \<in> set w. is_space c"
    and "m True (lits name @
       [One (Chr CHR ''=''), One (Cls [Lit dquote, Lit squote]),
        Open 1, Star (NotCls [Lit dquote, Lit squote]), Close 1,
        One (Cls [Lit dquote, Lit squote])]) s1 Map.empty Map.empty = Some res"
    by (auto simp add: atom_matches_ws simp del: atom_matches.simps)
  from m_lits_Some [OF this(4)] obtain n s2 where
    n: "s1 = n @ s2" "map to_upper n = map to_upper name"
    and "m True [One (Chr CHR ''=''), One (Cls [Lit dquote, Lit squote]),
        Open 1, Star (NotCls [Lit dquote, Lit squote]), Close 1,
        One (Cls [Lit dquote, Lit squote])] s2 Map.empty Map.empty = Some res"
    by (auto simp add: canonicalize_True)
  from attribute_tail_Some [OF this(3)] obtain q1 v q2 t where
    "s2 = ''='' @ q1 # v @ q2 # t" "q1 = dquote \<or> q1 = squote" "q2 = dquote \<or> q2 = squote"
    "dquote \<notin> set v" "squote \<notin> set v"
    by blast
  with x w n have "x = u @ w @ n @ ''='' @ q1 # v @ q2 # t
        \<and> w \<noteq> [] \<and> list_all is_space w
        \<and> map to_upper n = map to_upper name
        \<and> (q1 = dquote \<or> q1 = squote) \<and> (q2 = dquote \<or> q2 = squote)
        \<and> dquote \<notin> set v \<and> squote \<notin> set v"
    by (simp add: list_all_iff)
  then show "attribute_shaped name x"
    unfolding attribute_shaped_def by blast
next
  assume "attribute_shaped name x"
  then obtain u w n q1 v q2 t where
    x: "x = u @ w @ n @ ''='' @ q1 # v @ q2 # t"
    and w: "w \<noteq> []" "list_all is_space w"
    and n: "map to_upper n = map to_upper name"
    and q: "q1 = dquote \<or> q1 = squote" "q2 = dquote \<or> q2 = squote"
      "dquote \<notin> set v" "squote \<notin> set v"
    unfolding attribute_shaped_def by blast
  let ?tail = "[One (Chr CHR ''=''), One (Cls [Lit dquote, Lit squote]),
        Open 1, Star (NotCls [Lit dquote, Lit squote]), Close 1,
        One (Cls [Lit dquote, Lit squote])]"
  from w obtain c w' where w': "w = c # w'" "is_space c" "\<forall>d \<in> set w'. is_space d"
    by (cases w) (auto simp add: list_all_iff)
  have "m True ?tail (''='' @ q1 # v @ q2 # t) Map.empty Map.empty \<noteq> None"
    using q by (rule attribute_tail_matches)
  with n have "m True (lits name @ ?tail) (n @ ''='' @ q1 # v @ q2 # t) Map.empty Map.empty \<noteq> None"
    by (simp add: m_lits_same canonicalize_True)
  with w'(3) have "m True (Star (Cls [WhiteSpace]) # lits name @ ?tail)
      (w' @ n @ ''='' @ q1 # v @ q2 # t) Map.empty Map.empty \<noteq> None"
    by (intro star_some) (simp_all add: atom_matches_ws del: atom_matches.simps)
  with w'(1,2) have "match_at (attributePattern name) (w @ n @ ''='' @ q1 # v @ q2 # t) \<noteq> None"
    by (simp add: match_at_def attributePattern_nodes attributePattern_def atom_matches_ws
          del: atom_matches.simps)
  with x show "has_match (attributePattern name) x"
    unfolding has_match_iff by blast
qed

lemma has_match_lineBreaks:
  "has_match multipleLineBreaksPattern x = blank_line_run x"
proof
  assume "has_match multipleLineBreaksPattern x"
  then obtain u s res where x: "x = u @ s" and s: "match_at multipleLineBreaksPattern s = Some res"
    by (auto simp add: has_match_iff)
  then obtain c s1 where c: "s = c # s1"
    by (cases s) (auto simp add: match_at_lineBreaks_Nil)
  with s have c': "c = CHR 0x0A"
    and "m False [Star (Cls [WhiteSpace]), One (Chr CHR 0x0A)] s1 Map.empty Map.empty = Some res"
    by (auto simp add: match_at_lineBreaks_Cons split: if_splits)
  from m_Star_Some [OF this(2)] obtain w s2 where
    w: "s1 = w @ s2" "\<forall>d \<in> set w. is_space d"
    and "m False [One (Chr CHR 0x0A)] s2 Map.empty Map.empty = Some res"
    by (auto simp add: atom_matches_ws simp del: atom_matches.simps)
  from m_One_Some [OF this(3)] obtain t where "s2 = CHR 0x0A # t"
    by (auto simp add: atom_matches_newline simp del: atom_matches.simps)
  with x c c' w have "x = u @ CHR 0x0A # w @ CHR 0x0A # t \<and> list_all is_space w"
    by (simp add: list_all_iff)
  then show "blank_line_run x"
    unfolding blank_line_run_def by blast
next
  assume "blank_line_run x"
  then obtain u w t where x: "x = u @ CHR 0x0A # w @ CHR 0x0A # t" and w: "list_all is_space w"
    unfolding blank_line_run_def by blast
  have "m False [One (Chr CHR 0x0A)] (CHR 0x0A # t) Map.empty Map.empty \<noteq> None"
    by (simp add: atom_matches_newline del: atom_matches.simps)
  with w have "m False [Star (Cls [WhiteSpace]), One (Chr CHR 0x0A)] (w @ CHR 0x0A # t)
      Map.empty Map.empty \<noteq> None"
    by (intro star_some) (simp_all add: atom_matches_ws list_all_iff del: atom_matches.simps)
  then have "match_at multipleLineBreaksPattern (CHR 0x0A # w @ CHR 0x0A # t) \<noteq> None"
    by (simp add: match_at_lineBreaks_Cons)
  with x show "has_match multipleLineBreaksPattern x"
    unfolding has_match_iff by blast
qed

lemma attribute_free_shaped:
  "attribute_free x =
     (\<not> attribute_shaped ''style'' x \<and> \<not> attribute_shaped ''id'' x
      \<and> \<not> attribute_shaped ''class'' x \<and> \<not> attribute_shaped ''target'' x
      \<and> \<not> attribute_shaped ''border'' x)"
  by (simp add: attribute_free_def styleAttributePattern_def idAttributePattern_def
        classAttributePattern_def targetAttributePattern_def borderAttributePattern_def
        has_match_attribute)

section \<open>Attributes in a text without tags\<close>

lemma text_fixed_shaped:
  assumes "CHR ''<'' \<notin> set x"
  shows "(normalize_html x = x) =
         (\<not> attribute_shaped ''style'' x \<and> \<not> attribute_shaped ''id'' x
          \<and> \<not> attribute_shaped ''class'' x \<and> \<not> attribute_shaped ''target'' x
          \<and> \<not> attribute_shaped ''border'' x \<and> \<not> blank_line_run x)"
proof -
  from assms have "normalize_html x = text_steps x"
    by (rule normalize_no_lt)
  then have "(normalize_html x = x) = (attribute_free x \<and> \<not> has_match multipleLineBreaksPattern x)"
    by (simp only: text_steps_fixed)
  then show ?thesis
    by (simp only: attribute_free_shaped has_match_lineBreaks conj_assoc)
qed

text \<open>The five attributes in a text, and a run of blank lines.\<close>

lemma attributes_in_text:
  "normalize_html (''a style='' @ [dquote] @ ''red'' @ [dquote]) = ''a''
   \<and> normalize_html (''a id='' @ [squote] @ ''x'' @ [squote] @ '' b'') = ''a b''
   \<and> normalize_html (''a  CLASS='' @ [dquote] @ [dquote]) = ''a''
   \<and> normalize_html (''a\<newline>target='' @ [dquote] @ ''_blank'' @ [squote]) = ''a''
   \<and> normalize_html (''a border='' @ [dquote] @ ''1'' @ [dquote]) = ''a''
   \<and> normalize_html ''a\<newline> \<newline>b'' = ''a\<newline>b''"
  by code_simp

text \<open>
  Claim C10. Attribute stripping looks at the characters only, not at tags: the string
  \<open>a style="red"\<close> has no \<open><\<close>, and \<open>normalize\<close> turns it into \<open>a\<close>; so it does with \<open>id\<close>,
  \<open>class\<close>, \<open>target\<close> and \<open>border\<close>, with either quote, in any letter case and after any
  white space. For every string with no \<open><\<close>, \<open>normalize\<close> returns the string as it is
  exactly when the string has no attribute-shaped substring (white space, then the name,
  then \<open>=\<close>, then a quoted value) for one of the five names and no run of blank lines.
\<close>

theorem attribute_stripping_is_lexical:
  "CHR ''<'' \<notin> set (''a style='' @ [dquote] @ ''red'' @ [dquote])
   \<and> normalize_html (''a style='' @ [dquote] @ ''red'' @ [dquote]) = ''a''
   \<and> normalize_html (''a id='' @ [squote] @ ''x'' @ [squote] @ '' b'') = ''a b''
   \<and> normalize_html (''a  CLASS='' @ [dquote] @ [dquote]) = ''a''
   \<and> normalize_html (''a\<newline>target='' @ [dquote] @ ''_blank'' @ [squote]) = ''a''
   \<and> normalize_html (''a border='' @ [dquote] @ ''1'' @ [dquote]) = ''a''
   \<and> normalize_html ''a\<newline> \<newline>b'' = ''a\<newline>b''
   \<and> (\<forall>x. CHR ''<'' \<notin> set x \<longrightarrow>
          (normalize_html x = x) =
          (\<not> attribute_shaped ''style'' x \<and> \<not> attribute_shaped ''id'' x
           \<and> \<not> attribute_shaped ''class'' x \<and> \<not> attribute_shaped ''target'' x
           \<and> \<not> attribute_shaped ''border'' x \<and> \<not> blank_line_run x))"
  using attributes_in_text text_fixed_shaped
  by (simp add: dquote_def)

text \<open>A text with \<open>=\<close> that \<open>normalize\<close> leaves as it is.\<close>

lemma plain_text_example:
  "normalize_html ''a = b'' = ''a = b''"
  by code_simp

theorem attribute_stripping_is_lexical_witness:
  "CHR ''<'' \<notin> set ''a = b'' \<and> normalize_html ''a = b'' = ''a = b''
   \<and> \<not> attribute_shaped ''style'' ''a = b'' \<and> \<not> attribute_shaped ''id'' ''a = b''
   \<and> \<not> attribute_shaped ''class'' ''a = b'' \<and> \<not> attribute_shaped ''target'' ''a = b''
   \<and> \<not> attribute_shaped ''border'' ''a = b'' \<and> \<not> blank_line_run ''a = b''"
proof -
  have 1: "CHR ''<'' \<notin> set ''a = b''" by simp
  have 2: "normalize_html ''a = b'' = ''a = b''" by (rule plain_text_example)
  from attribute_stripping_is_lexical 1 2 show ?thesis by blast
qed

section \<open>Every replacement makes the string shorter\<close>



text \<open>The same for the table cell pattern.\<close>

lemma tableCell_match_shape:
  assumes "match_at tableCellPattern s = Some (rest, caps)"
  shows "\<exists>pre X post. s = pre @ X @ post @ rest \<and> 7 \<le> length pre \<and> 9 \<le> length post
           \<and> caps 1 = Some X"
proof -
  let ?ws = "Star (Cls [WhiteSpace])"
  from assms have "m True (lits ''<td>'' @ ?ws # lits ''<p>'' @ Open 1 # LazyStar Dot # Close 1
      # lits ''</p>'' @ ?ws # lits ''</td>'' @ []) s Map.empty Map.empty = Some (rest, caps)"
    by (simp add: match_at_def tableCellPattern_def)
  from m_lits_Some [OF this] obtain n1 s1 where 1: "s = n1 @ s1"
    and c1: "map (canonicalize True) n1 = map (canonicalize True) ''<td>''"
    and "m True (?ws # lits ''<p>'' @ Open 1 # LazyStar Dot # Close 1
      # lits ''</p>'' @ ?ws # lits ''</td>'' @ []) s1 Map.empty Map.empty = Some (rest, caps)"
    by blast
  from m_Star_Some [OF this(3)] obtain w1 s2 where 2: "s1 = w1 @ s2"
    and "m True (lits ''<p>'' @ Open 1 # LazyStar Dot # Close 1
      # lits ''</p>'' @ ?ws # lits ''</td>'' @ []) s2 Map.empty Map.empty = Some (rest, caps)"
    by blast
  from m_lits_Some [OF this(2)] obtain n2 s3 where 3: "s2 = n2 @ s3"
    and c2: "map (canonicalize True) n2 = map (canonicalize True) ''<p>''"
    and "m True (Open 1 # LazyStar Dot # Close 1
      # lits ''</p>'' @ ?ws # lits ''</td>'' @ []) s3 Map.empty Map.empty = Some (rest, caps)"
    by blast
  then have "m True (LazyStar Dot # Close 1 # lits ''</p>'' @ ?ws # lits ''</td>'' @ []) s3
      [1 \<mapsto> s3] Map.empty = Some (rest, caps)"
    by simp
  from m_LazyStar_Some [OF this] obtain X s4 where 4: "s3 = X @ s4"
    and "m True (Close 1 # lits ''</p>'' @ ?ws # lits ''</td>'' @ []) s4
      [1 \<mapsto> s3] Map.empty = Some (rest, caps)"
    by blast
  with 4 have "m True (lits ''</p>'' @ ?ws # lits ''</td>'' @ []) s4 [1 \<mapsto> s3] [1 \<mapsto> X]
      = Some (rest, caps)"
    by simp
  from m_lits_Some [OF this] obtain n3 s5 where 5: "s4 = n3 @ s5"
    and c3: "map (canonicalize True) n3 = map (canonicalize True) ''</p>''"
    and "m True (?ws # lits ''</td>'' @ []) s5 [1 \<mapsto> s3] [1 \<mapsto> X] = Some (rest, caps)"
    by blast
  from m_Star_Some [OF this(3)] obtain w2 s6 where 6: "s5 = w2 @ s6"
    and "m True (lits ''</td>'' @ []) s6 [1 \<mapsto> s3] [1 \<mapsto> X] = Some (rest, caps)"
    by blast
  from m_lits_Some [OF this(2)] obtain n4 s7 where 7: "s6 = n4 @ s7"
    and c4: "map (canonicalize True) n4 = map (canonicalize True) ''</td>''"
    and "m True [] s7 [1 \<mapsto> s3] [1 \<mapsto> X] = Some (rest, caps)"
    by blast
  then have 8: "s7 = rest" "caps = [1 \<mapsto> X]"
    by simp_all
  have l: "length n1 = 4" "length n2 = 3" "length n3 = 4" "length n4 = 5"
    using map_eq_imp_length_eq [OF c1] map_eq_imp_length_eq [OF c2]
      map_eq_imp_length_eq [OF c3] map_eq_imp_length_eq [OF c4]
    by simp_all
  from 1 2 3 4 5 6 7 8 l
  have "s = (n1 @ w1 @ n2) @ X @ (n3 @ w2 @ n4) @ rest \<and> 7 \<le> length (n1 @ w1 @ n2)
        \<and> 9 \<le> length (n3 @ w2 @ n4) \<and> caps 1 = Some X"
    by simp
  then show ?thesis by blast
qed

lemma tableCell_match_shrinks:
  assumes "match_at tableCellPattern s = Some (rest, caps)"
  shows "length (expand [Txt ''<td>'', Grp 1, Txt ''</td>''] caps) + length rest < length s"
proof -
  from tableCell_match_shape [OF assms] obtain pre X post
    where "s = pre @ X @ post @ rest" "7 \<le> length pre" "9 \<le> length post" "caps 1 = Some X"
    by blast
  then show ?thesis by simp
qed

text \<open>
  Where every match is longer than what replaces it, the replacement makes the string
  shorter wherever there is a match, and a string it returns as it is has no match.
\<close>

lemma replace_all_shrinks:
  assumes short: "\<And>s rest caps. match_at rx s = Some (rest, caps) \<Longrightarrow>
                    length (expand rep caps) + length rest < length s"
  shows "length (replace_all rx rep s) \<le> length s
       \<and> (has_match rx s \<longrightarrow> length (replace_all rx rep s) < length s)"
proof (induction s rule: length_induct)
  case (1 s)
  show ?case
  proof (cases "match_at rx s")
    case None
    show ?thesis
    proof (cases s)
      case Nil
      with None show ?thesis by (subst replace_all.simps, subst (2) replace_all.simps) simp
    next
      case (Cons c cs)
      with "1.IH" have "length (replace_all rx rep cs) \<le> length cs
         \<and> (has_match rx cs \<longrightarrow> length (replace_all rx rep cs) < length cs)"
        by simp
      with None Cons show ?thesis
        by (subst replace_all.simps, subst (2) replace_all.simps) auto
    qed
  next
    case (Some res)
    obtain rest caps where res: "res = (rest, caps)" by (cases res)
    from short [OF Some [unfolded res]]
    have tl: "length (expand rep caps) + length rest < length s" .
    then have lt: "length rest < length s"
      by simp
    with "1.IH" have "length (replace_all rx rep rest) \<le> length rest" by simp
    with tl Some res lt show ?thesis
      by (subst replace_all.simps, subst (2) replace_all.simps) simp
  qed
qed

lemma replace_all_fixed:
  assumes short: "\<And>s rest caps. match_at rx s = Some (rest, caps) \<Longrightarrow>
                    length (expand rep caps) + length rest < length s"
    and "length (replace_all rx rep s) = length s"
  shows "\<not> has_match rx s \<and> replace_all rx rep s = s"
  using replace_all_shrinks [of rx rep s, OF short] assms(2) replace_all_no_match [of rx s rep]
  by auto






lemma tableCell_step_fixed:
  "length (replace_all tableCellPattern [Txt ''<td>'', Grp 1, Txt ''</td>''] s) = length s \<Longrightarrow>
   \<not> has_match tableCellPattern s
   \<and> replace_all tableCellPattern [Txt ''<td>'', Grp 1, Txt ''</td>''] s = s"
  using replace_all_fixed [of tableCellPattern "[Txt ''<td>'', Grp 1, Txt ''</td>'']" s]
    tableCell_match_shrinks
  by blast

text \<open>A lazy star, a back-reference and a run of literal characters.\<close>

lemma lazy_some:
  "\<forall>c \<in> set w. atom_matches ic a c \<Longrightarrow> m ic r rest opens caps \<noteq> None \<Longrightarrow>
   m ic (LazyStar a # r) (w @ rest) opens caps \<noteq> None"
proof (induction w)
  case Nil
  then show ?case by (cases rest) (auto split: option.splits)
next
  case (Cons c w)
  then show ?case by (auto split: option.splits)
qed



lemma lits_some:
  "map to_upper n' = map to_upper n \<Longrightarrow> m True r rest opens caps \<noteq> None \<Longrightarrow>
   m True (lits n @ r) (n' @ rest) opens caps \<noteq> None"
  by (simp add: m_lits_same canonicalize_True)


section \<open>Where the patterns of tags match\<close>



text \<open>The pattern of a paragraph that fills a table cell.\<close>

lemma has_match_tableCell:
  "has_match tableCellPattern x = cell_paragraph_shaped x"
proof
  let ?ws = "Star (Cls [WhiteSpace])"
  assume "has_match tableCellPattern x"
  then obtain u s res where x: "x = u @ s" and "match_at tableCellPattern s = Some res"
    by (auto simp add: has_match_iff)
  then have "m True (lits ''<td>'' @ ?ws # lits ''<p>'' @ Open 1 # LazyStar Dot # Close 1
      # lits ''</p>'' @ ?ws # lits ''</td>'' @ []) s Map.empty Map.empty = Some res"
    by (simp add: match_at_def tableCellPattern_def)
  from m_lits_Some [OF this] obtain t1 s1 where 1: "s = t1 @ s1"
    and c1: "map to_upper t1 = map to_upper ''<td>''"
    and "m True (?ws # lits ''<p>'' @ Open 1 # LazyStar Dot # Close 1
      # lits ''</p>'' @ ?ws # lits ''</td>'' @ []) s1 Map.empty Map.empty = Some res"
    unfolding canonicalize_True by blast
  from m_Star_Some [OF this(3)] obtain w1 s2 where 2: "s1 = w1 @ s2" "\<forall>d \<in> set w1. is_space d"
    and "m True (lits ''<p>'' @ Open 1 # LazyStar Dot # Close 1
      # lits ''</p>'' @ ?ws # lits ''</td>'' @ []) s2 Map.empty Map.empty = Some res"
    by (auto simp add: atom_matches_ws simp del: atom_matches.simps)
  from m_lits_Some [OF this(3)] obtain t2 s3 where 3: "s2 = t2 @ s3"
    and c2: "map to_upper t2 = map to_upper ''<p>''"
    and "m True (Open 1 # LazyStar Dot # Close 1
      # lits ''</p>'' @ ?ws # lits ''</td>'' @ []) s3 Map.empty Map.empty = Some res"
    unfolding canonicalize_True by blast
  then have "m True (LazyStar Dot # Close 1 # lits ''</p>'' @ ?ws # lits ''</td>'' @ []) s3
      [1 \<mapsto> s3] Map.empty = Some res"
    by simp
  from m_LazyStar_Some [OF this] obtain X s4 where 4: "s3 = X @ s4"
    and X: "\<forall>d \<in> set X. atom_matches True Dot d"
    and "m True (Close 1 # lits ''</p>'' @ ?ws # lits ''</td>'' @ []) s4
      [1 \<mapsto> s3] Map.empty = Some res"
    by blast
  with 4 have "m True (lits ''</p>'' @ ?ws # lits ''</td>'' @ []) s4 [1 \<mapsto> s3] [1 \<mapsto> X]
      = Some res"
    by simp
  from m_lits_Some [OF this] obtain t3 s5 where 5: "s4 = t3 @ s5"
    and c3: "map to_upper t3 = map to_upper ''</p>''"
    and "m True (?ws # lits ''</td>'' @ []) s5 [1 \<mapsto> s3] [1 \<mapsto> X] = Some res"
    unfolding canonicalize_True by blast
  from m_Star_Some [OF this(3)] obtain w2 s6 where 6: "s5 = w2 @ s6" "\<forall>d \<in> set w2. is_space d"
    and "m True (lits ''</td>'' @ []) s6 [1 \<mapsto> s3] [1 \<mapsto> X] = Some res"
    by (auto simp add: atom_matches_ws simp del: atom_matches.simps)
  from m_lits_Some [OF this(3)] obtain t4 t where 7: "s6 = t4 @ t"
    and c4: "map to_upper t4 = map to_upper ''</td>''"
    unfolding canonicalize_True by blast
  from x 1 2 3 4 5 6 7 c1 c2 c3 c4 X
  have "x = u @ t1 @ w1 @ t2 @ X @ t3 @ w2 @ t4 @ t
        \<and> map to_upper t1 = map to_upper ''<td>''
        \<and> list_all is_space w1
        \<and> map to_upper t2 = map to_upper ''<p>''
        \<and> \<not> list_ex is_line_terminator X
        \<and> map to_upper t3 = map to_upper ''</p>''
        \<and> list_all is_space w2
        \<and> map to_upper t4 = map to_upper ''</td>''"
    by (simp add: list_all_iff list_ex_iff)
  then show "cell_paragraph_shaped x"
    unfolding cell_paragraph_shaped_def by blast
next
  let ?ws = "Star (Cls [WhiteSpace])"
  assume "cell_paragraph_shaped x"
  then obtain u t1 w1 t2 X t3 w2 t4 t where
    x: "x = u @ t1 @ w1 @ t2 @ X @ t3 @ w2 @ t4 @ t"
    and c1: "map to_upper t1 = map to_upper ''<td>''"
    and w1: "list_all is_space w1"
    and c2: "map to_upper t2 = map to_upper ''<p>''"
    and X: "\<not> list_ex is_line_terminator X"
    and c3: "map to_upper t3 = map to_upper ''</p>''"
    and w2: "list_all is_space w2"
    and c4: "map to_upper t4 = map to_upper ''</td>''"
    unfolding cell_paragraph_shaped_def by blast
  let ?opens = "[1 \<mapsto> X @ t3 @ w2 @ t4 @ t]"
  have "m True (lits ''</td>'' @ []) (t4 @ t) ?opens [1 \<mapsto> X] \<noteq> None"
    using c4 by (intro lits_some) simp_all
  with w2 have "m True (?ws # lits ''</td>'' @ []) (w2 @ t4 @ t) ?opens [1 \<mapsto> X] \<noteq> None"
    by (intro star_some) (simp_all add: atom_matches_ws list_all_iff del: atom_matches.simps)
  with c3 have "m True (lits ''</p>'' @ ?ws # lits ''</td>'' @ []) (t3 @ w2 @ t4 @ t) ?opens [1 \<mapsto> X]
      \<noteq> None"
    by (rule lits_some)
  then have "m True (Close 1 # lits ''</p>'' @ ?ws # lits ''</td>'' @ []) (t3 @ w2 @ t4 @ t)
      ?opens Map.empty \<noteq> None"
    by simp
  with X have "m True (LazyStar Dot # Close 1 # lits ''</p>'' @ ?ws # lits ''</td>'' @ [])
      (X @ t3 @ w2 @ t4 @ t) ?opens Map.empty \<noteq> None"
    by (intro lazy_some) (simp_all add: list_ex_iff)
  then have "m True (Open 1 # LazyStar Dot # Close 1 # lits ''</p>'' @ ?ws # lits ''</td>'' @ [])
      (X @ t3 @ w2 @ t4 @ t) Map.empty Map.empty \<noteq> None"
    by simp
  with c2 have "m True (lits ''<p>'' @ Open 1 # LazyStar Dot # Close 1 # lits ''</p>'' @ ?ws
      # lits ''</td>'' @ []) (t2 @ X @ t3 @ w2 @ t4 @ t) Map.empty Map.empty \<noteq> None"
    by (rule lits_some)
  with w1 have "m True (?ws # lits ''<p>'' @ Open 1 # LazyStar Dot # Close 1 # lits ''</p>'' @ ?ws
      # lits ''</td>'' @ []) (w1 @ t2 @ X @ t3 @ w2 @ t4 @ t) Map.empty Map.empty \<noteq> None"
    by (intro star_some) (simp_all add: atom_matches_ws list_all_iff del: atom_matches.simps)
  with c1 have "m True (lits ''<td>'' @ ?ws # lits ''<p>'' @ Open 1 # LazyStar Dot # Close 1
      # lits ''</p>'' @ ?ws # lits ''</td>'' @ []) (t1 @ w1 @ t2 @ X @ t3 @ w2 @ t4 @ t)
      Map.empty Map.empty \<noteq> None"
    by (rule lits_some)
  then have "match_at tableCellPattern (t1 @ w1 @ t2 @ X @ t3 @ w2 @ t4 @ t) \<noteq> None"
    by (simp add: match_at_def tableCellPattern_def)
  with x show "has_match tableCellPattern x"
    unfolding has_match_iff by blast
qed

section \<open>Where the normalizer is idempotent\<close>











section \<open>Empty tag pairs are removed first\<close>

text \<open>A pattern that begins with \<open><\<close> passes over text without \<open><\<close>.\<close>

lemma replace_all_skip:
  assumes "\<And>c s. c \<noteq> CHR ''<'' \<Longrightarrow> match_at rx (c # s) = None"
    and "CHR ''<'' \<notin> set u"
  shows "replace_all rx rep (u @ s) = u @ replace_all rx rep s"
  using assms(2)
proof (induction u)
  case Nil
  then show ?case by simp
next
  case (Cons c u)
  then have "match_at rx (c # u @ s) = None"
    by (intro assms(1)) auto
  with Cons show ?case
    by (subst replace_all.simps) simp
qed









section \<open>Wrappers and table cells\<close>

text \<open>
  Claim C8. \<open>normalize('<span class="x" style="color:red">Bold</span>')\<close> is \<open>"Bold"\<close>:
  the attribute replacements leave \<open><span>Bold</span>\<close>, and the \<open>span\<close> replacement,
  which comes after them, keeps the content of the wrapper, markup inside it too. The
  attributes go first: in \<open><span> id="</span>"\<close> the closing tag is inside the value
  of \<open>id\<close> and is stripped with it, so no wrapper is left to unwrap.
\<close>

theorem span_unwrapped:
  "normalize_html (''<span class='' @ [dquote] @ ''x'' @ [dquote] @ '' style='' @ [dquote]
                   @ ''color:red'' @ [dquote] @ ''>Bold</span>'') = ''Bold''
   \<and> replace_all classAttributePattern []
        (replace_all idAttributePattern []
          (replace_all styleAttributePattern []
            (replace_all emptyTagPattern []
              (''<span class='' @ [dquote] @ ''x'' @ [dquote] @ '' style='' @ [dquote]
                   @ ''color:red'' @ [dquote] @ ''>Bold</span>'')))) = ''<span>Bold</span>''
   \<and> replace_all spanTagPattern [Grp 1] ''<span>Bold</span>'' = ''Bold''
   \<and> normalize_html (''<span> id='' @ [dquote] @ ''</span>'' @ [dquote]) = ''<span>''
   \<and> normalize_html ''<font><span><b>x</b> y</span></font>'' = ''<b>x</b> y''"
  by code_simp

text \<open>The paragraph of a table cell.\<close>

lemma starts_with_ci_same:
  "map to_upper n = map to_upper p \<Longrightarrow> starts_with_ci p (n @ t)"
proof (induction p arbitrary: n)
  case Nil
  then show ?case by simp
next
  case (Cons a p)
  then show ?case by (cases n) auto
qed

lemma contains_ci_suffix:
  "contains_ci p X2 \<Longrightarrow> contains_ci p (X1 @ X2)"
  by (induction X1) simp_all

lemma starts_contains: "starts_with_ci p X \<Longrightarrow> contains_ci p X"
  by (cases X) simp_all

lemma upper_signs:
  "to_upper CHR ''<'' = CHR ''<''" "to_upper CHR ''/'' = CHR ''/''" "to_upper CHR ''>'' = CHR ''>''"
  by (simp_all add: to_upper_caseless caseless_lt caseless_slash caseless_gt)

lemma upper_p_no_lt: "to_upper CHR ''p'' \<noteq> CHR ''<''" "CHR ''<'' \<noteq> to_upper CHR ''p''"
  using to_upper_eq_caseless [OF caseless_lt, of "CHR ''p''"] by auto

text \<open>
  An occurrence of \<open></p>\<close> that begins in \<open>X2\<close> lies in \<open>X2\<close> when the next character
  after \<open>X2\<close> is \<open><\<close>.
\<close>

lemma paragraph_end_inside:
  assumes "starts_with_ci ''</p>'' (X2 @ CHR ''<'' # Y)" and "X2 \<noteq> []"
  shows "starts_with_ci ''</p>'' X2"
proof -
  from assms(2) obtain c1 l1 where 1: "X2 = c1 # l1" by (cases X2) auto
  show ?thesis
  proof (cases l1)
    case Nil
    with 1 assms(1) show ?thesis by (simp add: upper_signs split: if_splits)
  next
    case (Cons c2 l2)
    note 2 = this
    show ?thesis
    proof (cases l2)
      case Nil
      with 1 2 assms(1) upper_p_no_lt show ?thesis by (simp add: upper_signs split: if_splits)
    next
      case (Cons c3 l3)
      note 3 = this
      show ?thesis
      proof (cases l3)
        case Nil
        with 1 2 3 assms(1) show ?thesis by (simp add: upper_signs split: if_splits)
      next
        case (Cons c4 l4)
        with 1 2 3 assms(1) show ?thesis by (simp split: if_splits)
      qed
    qed
  qed
qed

lemma paragraph_end_None:
  assumes "\<not> contains_ci ''</p>'' (X1 @ X2)" and "X2 \<noteq> []"
  shows "m True (lits ''</p>'' @ r) (X2 @ CHR ''<'' # Y) opens caps = None"
proof (cases "m True (lits ''</p>'' @ r) (X2 @ CHR ''<'' # Y) opens caps")
  case None
  then show ?thesis .
next
  case (Some res)
  from m_lits_Some [OF this] obtain n t where "X2 @ CHR ''<'' # Y = n @ t"
    "map to_upper n = map to_upper ''</p>''"
    unfolding canonicalize_True by blast
  with starts_with_ci_same [of n "''</p>''" t]
  have "starts_with_ci ''</p>'' (X2 @ CHR ''<'' # Y)" by simp
  from paragraph_end_inside [OF this assms(2)] have "contains_ci ''</p>'' X2"
    by (rule starts_contains)
  then have "contains_ci ''</p>'' (X1 @ X2)"
    by (rule contains_ci_suffix)
  with assms(1) show ?thesis by simp
qed

text \<open>
  A lazy star over a run of characters of its class: it takes the whole run when the
  rest of the pattern matches after the run and at no place in it.
\<close>

lemma lazy_star_exact:
  assumes "\<forall>c \<in> set X. atom_matches ic a c"
    and "\<And>X1 X2. X = X1 @ X2 \<Longrightarrow> X2 \<noteq> [] \<Longrightarrow> m ic r (X2 @ rest) opens caps = None"
    and "m ic r rest opens caps = Some res"
  shows "m ic (LazyStar a # r) (X @ rest) opens caps = Some res"
  using assms
proof (induction X)
  case Nil
  then show ?case by (cases rest) simp_all
next
  case (Cons c X)
  have "m ic r ((c # X) @ rest) opens caps = None"
    by (rule Cons.prems(2) [of "[]" "c # X"]) simp_all
  moreover have "m ic (LazyStar a # r) (X @ rest) opens caps = Some res"
  proof (rule Cons.IH)
    show "\<forall>c \<in> set X. atom_matches ic a c" using Cons.prems(1) by simp
    show "m ic r rest opens caps = Some res" by (rule Cons.prems(3))
    show "m ic r (X2 @ rest) opens caps = None" if "X = X1 @ X2" "X2 \<noteq> []" for X1 X2
      using Cons.prems(2) [of "c # X1" X2] that by simp
  qed
  ultimately show ?case using Cons.prems(1) by simp
qed

lemma starts_lt:
  assumes "map to_upper t = map to_upper (CHR ''<'' # p)"
  shows "\<exists>t'. t = CHR ''<'' # t'"
proof -
  from assms obtain c t' where t: "t = c # t'" and "to_upper c = to_upper CHR ''<''"
    by (cases t) auto
  then have "to_upper c = CHR ''<''" by (simp add: upper_signs)
  from to_upper_eq_caseless [OF caseless_lt this] t show ?thesis by simp
qed

text \<open>The pattern at the start of a table cell with a paragraph.\<close>

lemma tableCell_match:
  assumes t1: "map to_upper t1 = map to_upper ''<td>''"
    and w1: "list_all is_space w1"
    and t2: "map to_upper t2 = map to_upper ''<p>''"
    and X: "\<not> list_ex is_line_terminator X" "\<not> contains_ci ''</p>'' X"
    and t3: "map to_upper t3 = map to_upper ''</p>''"
    and w2: "list_all is_space w2"
    and t4: "map to_upper t4 = map to_upper ''</td>''"
  shows "match_at tableCellPattern (t1 @ w1 @ t2 @ X @ t3 @ w2 @ t4 @ rest) = Some (rest, [1 \<mapsto> X])"
proof -
  let ?ws = "Star (Cls [WhiteSpace])"
  let ?opens = "[1 \<mapsto> X @ t3 @ w2 @ t4 @ rest]"
  let ?res = "Some (rest, [1 \<mapsto> X])"
  from starts_lt [OF t2] obtain t2' where t2': "t2 = CHR ''<'' # t2'" by blast
  from starts_lt [OF t3] obtain t3' where t3': "t3 = CHR ''<'' # t3'" by blast
  from starts_lt [OF t4] obtain t4' where t4': "t4 = CHR ''<'' # t4'" by blast
  have a: "m True (lits ''</td>'' @ []) (t4 @ rest) ?opens [1 \<mapsto> X] = ?res"
    using t4 by (subst m_lits_same) (simp_all only: canonicalize_True m_Nil)
  have b: "m True (?ws # lits ''</td>'' @ []) (w2 @ t4 @ rest) ?opens [1 \<mapsto> X] = ?res"
    using w2 a lt_no_space
    by (intro greedy_star_run) (simp_all add: atom_matches_ws list_all_iff t4' del: atom_matches.simps)
  have c: "m True (lits ''</p>'' @ ?ws # lits ''</td>'' @ []) (t3 @ w2 @ t4 @ rest) ?opens [1 \<mapsto> X]
      = ?res"
    using t3 b by (subst m_lits_same) (simp_all only: canonicalize_True)
  have d: "m True (Close 1 # lits ''</p>'' @ ?ws # lits ''</td>'' @ []) (t3 @ w2 @ t4 @ rest)
      ?opens Map.empty = ?res"
    using c by simp
  have e: "m True (LazyStar Dot # Close 1 # lits ''</p>'' @ ?ws # lits ''</td>'' @ [])
      (X @ t3 @ w2 @ t4 @ rest) ?opens Map.empty = ?res"
  proof (rule lazy_star_exact)
    show "\<forall>c \<in> set X. atom_matches True Dot c"
      using X(1) by (simp add: list_ex_iff)
    show "m True (Close 1 # lits ''</p>'' @ ?ws # lits ''</td>'' @ []) (t3 @ w2 @ t4 @ rest)
      ?opens Map.empty = ?res"
      by (rule d)
    show "m True (Close 1 # lits ''</p>'' @ ?ws # lits ''</td>'' @ [])
      (X2 @ t3 @ w2 @ t4 @ rest) ?opens Map.empty = None" if "X = X1 @ X2" "X2 \<noteq> []" for X1 X2
    proof -
      from X(2) that(1) have "\<not> contains_ci ''</p>'' (X1 @ X2)" by simp
      from paragraph_end_None [OF this that(2)] show ?thesis
        by (simp add: t3')
    qed
  qed
  have f: "m True (lits ''<p>'' @ Open 1 # LazyStar Dot # Close 1 # lits ''</p>'' @ ?ws
      # lits ''</td>'' @ []) (t2 @ X @ t3 @ w2 @ t4 @ rest) Map.empty Map.empty = ?res"
    using t2 e by (subst m_lits_same) (simp_all add: canonicalize_True)
  have g: "m True (?ws # lits ''<p>'' @ Open 1 # LazyStar Dot # Close 1 # lits ''</p>'' @ ?ws
      # lits ''</td>'' @ []) (w1 @ t2 @ X @ t3 @ w2 @ t4 @ rest) Map.empty Map.empty = ?res"
    using w1 f lt_no_space
    by (intro greedy_star_run) (simp_all add: atom_matches_ws list_all_iff t2' del: atom_matches.simps)
  have h: "m True (lits ''<td>'' @ ?ws # lits ''<p>'' @ Open 1 # LazyStar Dot # Close 1
      # lits ''</p>'' @ ?ws # lits ''</td>'' @ []) (t1 @ w1 @ t2 @ X @ t3 @ w2 @ t4 @ rest)
      Map.empty Map.empty = ?res"
    using t1 g by (subst m_lits_same) (simp_all only: canonicalize_True)
  then show ?thesis
    by (simp add: match_at_def tableCellPattern_def)
qed

lemma tableCell_starts_lt: "c \<noteq> CHR ''<'' \<Longrightarrow> match_at tableCellPattern (c # s) = None"
  by (simp add: match_at_def tableCellPattern_def lits_def chr_lt del: atom_matches.simps)

lemma tableCell_replaced:
  assumes "CHR ''<'' \<notin> set u"
    and "map to_upper t1 = map to_upper ''<td>''"
    and "list_all is_space w1"
    and "map to_upper t2 = map to_upper ''<p>''"
    and "\<not> list_ex is_line_terminator X" "\<not> contains_ci ''</p>'' X"
    and "map to_upper t3 = map to_upper ''</p>''"
    and "list_all is_space w2"
    and "map to_upper t4 = map to_upper ''</td>''"
  shows "replace_all tableCellPattern [Txt ''<td>'', Grp 1, Txt ''</td>'']
           (u @ t1 @ w1 @ t2 @ X @ t3 @ w2 @ t4 @ rest)
         = u @ ''<td>'' @ X @ ''</td>''
             @ replace_all tableCellPattern [Txt ''<td>'', Grp 1, Txt ''</td>''] rest"
proof -
  from assms(2) have "t1 \<noteq> []" by auto
  then have "length rest < length (t1 @ w1 @ t2 @ X @ t3 @ w2 @ t4 @ rest)"
    by (cases t1) simp_all
  with tableCell_match [OF assms(2-9), of rest]
  have "replace_all tableCellPattern [Txt ''<td>'', Grp 1, Txt ''</td>'']
           (t1 @ w1 @ t2 @ X @ t3 @ w2 @ t4 @ rest)
         = ''<td>'' @ X @ ''</td>''
             @ replace_all tableCellPattern [Txt ''<td>'', Grp 1, Txt ''</td>''] rest"
    by (subst replace_all.simps) simp
  with replace_all_skip [of tableCellPattern u, OF tableCell_starts_lt assms(1)]
  show ?thesis by simp
qed

text \<open>The examples of claim C9.\<close>

lemma table_cell_examples:
  "normalize_html ''<td><p>Cell</p></td>'' = ''<td>Cell</td>''
   \<and> replace_all tableCellPattern [Txt ''<td>'', Grp 1, Txt ''</td>''] ''<td><p>Cell</p></td>''
       = ''<td>Cell</td>''
   \<and> normalize_html ''<td><font><p>x</p></font></td>'' = ''<td>x</td>''"
  by code_simp

lemma tableCell_fixed:
  "(replace_all tableCellPattern [Txt ''<td>'', Grp 1, Txt ''</td>''] x = x)
   = (\<not> cell_paragraph_shaped x)"
  using tableCell_step_fixed [of x]
    replace_all_no_match [of tableCellPattern x "[Txt ''<td>'', Grp 1, Txt ''</td>'']"]
    has_match_tableCell [of x]
  by auto

text \<open>
  Claim C9, as the code has it. \<open>normalize("<td><p>Cell</p></td>")\<close> is
  \<open>"<td>Cell</td>"\<close>. The replacement of the table cell pattern is the last of the ten,
  after \<open>font\<close> is unwrapped: the paragraph in \<open><td><font><p>x</p></font></td>\<close> is
  removed too. In general, the last replacement passes over text with no \<open><\<close>, and
  where it comes to \<open><td>\<close>, white space, \<open><p>\<close>, a content \<open>X\<close>, \<open></p>\<close>, white space,
  \<open></td>\<close> (the four tags as written here, with no attribute, in any letter case) it
  writes \<open><td>X</td>\<close>, when \<open>X\<close> has no line terminator and no \<open></p>\<close>. The strings that
  the last replacement returns as they are, are those with no such cell with a content
  without line terminators.
\<close>

theorem table_cell_paragraph:
  "normalize_html ''<td><p>Cell</p></td>'' = ''<td>Cell</td>''
   \<and> replace_all tableCellPattern [Txt ''<td>'', Grp 1, Txt ''</td>''] ''<td><p>Cell</p></td>''
       = ''<td>Cell</td>''
   \<and> normalize_html ''<td><font><p>x</p></font></td>'' = ''<td>x</td>''
   \<and> cleanHtml x =
       replace_all tableCellPattern [Txt ''<td>'', Grp 1, Txt ''</td>'']
        (replace_all multipleLineBreaksPattern [Txt [CHR 0x0A]]
          (replace_all fontTagPattern [Grp 1]
            (replace_all spanTagPattern [Grp 1]
              (replace_all borderAttributePattern []
                (replace_all targetAttributePattern []
                  (replace_all classAttributePattern []
                    (replace_all idAttributePattern []
                      (replace_all styleAttributePattern []
                        (replace_all emptyTagPattern [] x)))))))))
   \<and> (\<forall>u t1 w1 t2 X t3 w2 t4 rest.
        CHR ''<'' \<notin> set u
        \<and> map to_upper t1 = map to_upper ''<td>'' \<and> list_all is_space w1
        \<and> map to_upper t2 = map to_upper ''<p>''
        \<and> \<not> list_ex is_line_terminator X \<and> \<not> contains_ci ''</p>'' X
        \<and> map to_upper t3 = map to_upper ''</p>'' \<and> list_all is_space w2
        \<and> map to_upper t4 = map to_upper ''</td>''
        \<longrightarrow> replace_all tableCellPattern [Txt ''<td>'', Grp 1, Txt ''</td>'']
              (u @ t1 @ w1 @ t2 @ X @ t3 @ w2 @ t4 @ rest)
            = u @ ''<td>'' @ X @ ''</td>''
                @ replace_all tableCellPattern [Txt ''<td>'', Grp 1, Txt ''</td>''] rest)
   \<and> (replace_all tableCellPattern [Txt ''<td>'', Grp 1, Txt ''</td>''] x = x)
       = (\<not> cell_paragraph_shaped x)"
proof -
  have "replace_all tableCellPattern [Txt ''<td>'', Grp 1, Txt ''</td>'']
              (u @ t1 @ w1 @ t2 @ X @ t3 @ w2 @ t4 @ rest)
            = u @ ''<td>'' @ X @ ''</td>''
                @ replace_all tableCellPattern [Txt ''<td>'', Grp 1, Txt ''</td>''] rest"
    if "CHR ''<'' \<notin> set u
        \<and> map to_upper t1 = map to_upper ''<td>'' \<and> list_all is_space w1
        \<and> map to_upper t2 = map to_upper ''<p>''
        \<and> \<not> list_ex is_line_terminator X \<and> \<not> contains_ci ''</p>'' X
        \<and> map to_upper t3 = map to_upper ''</p>'' \<and> list_all is_space w2
        \<and> map to_upper t4 = map to_upper ''</td>''"
    for u t1 w1 t2 X t3 w2 t4 rest
    using that by (intro tableCell_replaced) blast+
  with table_cell_examples cleanHtml_pipeline [of x] tableCell_fixed [of x]
  show ?thesis by blast
qed

text \<open>
  The cell \<open><TD> <p><b>Cell</b></P>\<close>, newline, \<open></td>\<close> between the texts \<open>a\<close> and \<open>z\<close>.
\<close>

lemma table_cell_example:
  "CHR ''<'' \<notin> set ''a''
   \<and> map to_upper ''<TD>'' = map to_upper ''<td>'' \<and> list_all is_space '' ''
   \<and> map to_upper ''<p>'' = map to_upper ''<p>''
   \<and> \<not> list_ex is_line_terminator ''<b>Cell</b>'' \<and> \<not> contains_ci ''</p>'' ''<b>Cell</b>''
   \<and> map to_upper ''</P>'' = map to_upper ''</p>'' \<and> list_all is_space ''\<newline>''
   \<and> map to_upper ''</td>'' = map to_upper ''</td>''
   \<and> replace_all tableCellPattern [Txt ''<td>'', Grp 1, Txt ''</td>''] ''z'' = ''z''"
  by code_simp

theorem table_cell_paragraph_witness:
  "replace_all tableCellPattern [Txt ''<td>'', Grp 1, Txt ''</td>'']
      ''a<TD> <p><b>Cell</b></P>\<newline></td>z'' = ''a<td><b>Cell</b></td>z''
   \<and> CHR ''<'' \<notin> set ''a''
   \<and> map to_upper ''<TD>'' = map to_upper ''<td>'' \<and> list_all is_space '' ''
   \<and> \<not> list_ex is_line_terminator ''<b>Cell</b>'' \<and> \<not> contains_ci ''</p>'' ''<b>Cell</b>''
   \<and> map to_upper ''</P>'' = map to_upper ''</p>'' \<and> list_all is_space ''\<newline>''"
proof -
  from table_cell_paragraph have
    "CHR ''<'' \<notin> set ''a''
        \<and> map to_upper ''<TD>'' = map to_upper ''<td>'' \<and> list_all is_space '' ''
        \<and> map to_upper ''<p>'' = map to_upper ''<p>''
        \<and> \<not> list_ex is_line_terminator ''<b>Cell</b>'' \<and> \<not> contains_ci ''</p>'' ''<b>Cell</b>''
        \<and> map to_upper ''</P>'' = map to_upper ''</p>'' \<and> list_all is_space ''\<newline>''
        \<and> map to_upper ''</td>'' = map to_upper ''</td>''
        \<longrightarrow> replace_all tableCellPattern [Txt ''<td>'', Grp 1, Txt ''</td>'']
              (''a'' @ ''<TD>'' @ '' '' @ ''<p>'' @ ''<b>Cell</b>'' @ ''</P>'' @ ''\<newline>'' @ ''</td>'' @ ''z'')
            = ''a'' @ ''<td>'' @ ''<b>Cell</b>'' @ ''</td>''
                @ replace_all tableCellPattern [Txt ''<td>'', Grp 1, Txt ''</td>''] ''z''"
    by blast
  with table_cell_example show ?thesis by simp
qed

text \<open>
  Claim C9 as stated fails: the paragraph that wraps all of the content of a cell stays
  when the content has a line break, and when the cell tag has an attribute; and the
  content of \<open><td><p> </p></td>\<close>, a space, is not kept, as the paragraph is removed as
  an empty tag pair.
\<close>

theorem table_cell_paragraph_counterexample:
  "normalize_html ''<td><p>a\<newline>b</p></td>'' = ''<td><p>a\<newline>b</p></td>''
   \<and> normalize_html (''<td colspan='' @ [dquote] @ ''2'' @ [dquote] @ ''><p>Cell</p></td>'')
       = ''<td colspan='' @ [dquote] @ ''2'' @ [dquote] @ ''><p>Cell</p></td>''
   \<and> normalize_html ''<td><p> </p></td>'' = ''<td></td>''"
  by code_simp

end
